theory Spec2Isabelle
  imports Complex_Main
begin

section \<open>Pixel buffers\<close>

text \<open>
  The image pipeline of \<^verbatim>\<open>src/app/components/ImageGenerator.tsx\<close>. An \<^verbatim>\<open>ImageData\<close> is a
  width, a height and a flat \<^verbatim>\<open>Uint8ClampedArray\<close> of RGBA bytes; the byte of channel \<open>c\<close> of
  pixel \<open>(x, y)\<close> sits at index \<open>(y * width + x) * 4 + c\<close>. Bytes are natural numbers; a store
  into the clamped array clamps to \<open>255\<close> (\<open>toUint8Clamped\<close>). JavaScript numbers that carry
  fractions (the dithered channels, the colour distance, scale factors) are exact rationals.
\<close>

record ImageData =
  width :: nat
  height :: nat
  data :: "nat list"

type_synonym rgb = "nat \<times> nat \<times> nat"

type_synonym rgba = "nat \<times> nat \<times> nat \<times> nat"

datatype error = IndexSizeError | TypeError

text \<open>
  The platform keeps, for every \<^verbatim>\<open>ImageData\<close>, both sides positive and
  \<^verbatim>\<open>data.length = 4 * width * height\<close>, every byte in \<open>0..255\<close>.
\<close>

definition wf_ImageData :: "ImageData \<Rightarrow> bool" where
  "wf_ImageData im \<longleftrightarrow>
     0 < width im \<and> 0 < height im \<and> length (data im) = 4 * width im * height im \<and>
     list_all (\<lambda>v. v \<le> 255) (data im)"

text \<open>\<^verbatim>\<open>new ImageData(w, h)\<close>: transparent black; a zero side raises \<^verbatim>\<open>IndexSizeError\<close>.\<close>

definition newImageData :: "nat \<Rightarrow> nat \<Rightarrow> error + ImageData" where
  "newImageData w h =
     (if w = 0 \<or> h = 0 then Inl IndexSizeError
      else Inr \<lparr>width = w, height = h, data = replicate (w * h * 4) 0\<rparr>)"

definition toUint8Clamped :: "nat \<Rightarrow> nat" where
  "toUint8Clamped v = min 255 v"

text \<open>The pixel at \<open>(x, y)\<close>, as the four reads \<^verbatim>\<open>data[idx] .. data[idx + 3]\<close>.\<close>

definition pixelAt :: "ImageData \<Rightarrow> nat \<Rightarrow> nat \<Rightarrow> rgba" where
  "pixelAt im x y =
     (let idx = (y * width im + x) * 4
      in (data im ! idx, data im ! (idx + 1), data im ! (idx + 2), data im ! (idx + 3)))"

text \<open>The alpha read \<^verbatim>\<open>data[idx + 3]\<close> of pixel \<open>(x, y)\<close>.\<close>

definition alphaAt :: "ImageData \<Rightarrow> nat \<Rightarrow> nat \<Rightarrow> nat" where
  "alphaAt im x y = data im ! ((y * width im + x) * 4 + 3)"

text \<open>
  The four bytes of pixel number \<open>n = y * width + x\<close> of a data array, read and stored
  together.
\<close>

definition readPx :: "nat list \<Rightarrow> nat \<Rightarrow> rgba" where
  "readPx od n = (od ! (n * 4), od ! (n * 4 + 1), od ! (n * 4 + 2), od ! (n * 4 + 3))"

definition writePixel :: "nat list \<Rightarrow> nat \<Rightarrow> rgba \<Rightarrow> nat list" where
  "writePixel od n c =
     (case c of (r, g, b, a) \<Rightarrow> od[n * 4 := r, n * 4 + 1 := g, n * 4 + 2 := b, n * 4 + 3 := a])"

text \<open>
  \<^verbatim>\<open>for (let y = 0; y < height; y++) for (let x = 0; x < width; x++) body\<close>, threading the
  mutated state; \<open>forYX_err\<close> is the same loop for a body that can throw.
\<close>

definition forYX :: "nat \<Rightarrow> nat \<Rightarrow> (nat \<Rightarrow> nat \<Rightarrow> 's \<Rightarrow> 's) \<Rightarrow> 's \<Rightarrow> 's" where
  "forYX h w body s = fold (\<lambda>y. fold (\<lambda>x. body y x) [0..<w]) [0..<h] s"

definition forYX_err ::
  "nat \<Rightarrow> nat \<Rightarrow> (nat \<Rightarrow> nat \<Rightarrow> 's \<Rightarrow> error + 's) \<Rightarrow> 's \<Rightarrow> error + 's" where
  "forYX_err h w body s =
     fold (\<lambda>y. fold (\<lambda>x r. case r of Inl e \<Rightarrow> Inl e | Inr s' \<Rightarrow> body y x s') [0..<w])
       [0..<h] (Inr s)"

section \<open>Subject cropper\<close>

record Rect =
  rect_x :: int
  rect_y :: int
  rect_w :: int
  rect_h :: int

text \<open>The body of the pixel loop of \<^verbatim>\<open>getOpaqueBounds\<close>, on the four running bounds.\<close>

definition boundsPixel ::
  "ImageData \<Rightarrow> int \<Rightarrow> nat \<Rightarrow> nat \<Rightarrow> int \<times> int \<times> int \<times> int \<Rightarrow> int \<times> int \<times> int \<times> int" where
  "boundsPixel img alphaThreshold y x st =
     (case st of (minX, minY, maxX, maxY) \<Rightarrow>
        let idx = (y * width img + x) * 4;
            a = data img ! (idx + 3)
        in if int a > alphaThreshold
           then (if int x < minX then int x else minX,
                 if int y < minY then int y else minY,
                 if int x > maxX then int x else maxX,
                 if int y > maxY then int y else maxY)
           else (minX, minY, maxX, maxY))"

definition getOpaqueBounds :: "ImageData \<Rightarrow> int \<Rightarrow> Rect option" where
  "getOpaqueBounds img alphaThreshold =
     (let (minX, minY, maxX, maxY) =
        forYX (height img) (width img) (boundsPixel img alphaThreshold)
          (int (width img), int (height img), - 1, - 1)
      in if maxX < minX \<or> maxY < minY then None
         else Some \<lparr>rect_x = minX, rect_y = minY,
                    rect_w = maxX - minX + 1, rect_h = maxY - minY + 1\<rparr>)"

text \<open>
  The rectangle \<^verbatim>\<open>pixelateImage\<close> crops to:
  \<^verbatim>\<open>getOpaqueBounds(srcImage, 16) || { x: 0, y: 0, w: width, h: height }\<close>.
\<close>

definition cropBounds :: "ImageData \<Rightarrow> Rect" where
  "cropBounds srcImage =
     (case getOpaqueBounds srcImage 16 of
        Some r \<Rightarrow> r
      | None \<Rightarrow> \<lparr>rect_x = 0, rect_y = 0,
                  rect_w = int (width srcImage), rect_h = int (height srcImage)\<rparr>)"

section \<open>Palette quantizer\<close>

datatype PaletteName = gb | nes | ega | c64 | pico8

fun PALETTES :: "PaletteName \<Rightarrow> rgb list" where
  "PALETTES gb = [(15, 56, 15), (48, 98, 48), (139, 172, 15), (155, 188, 15)]"
| "PALETTES nes =
    [(124, 124, 124), (0, 0, 252), (0, 0, 188), (68, 40, 188),
     (148, 0, 132), (168, 0, 32), (168, 16, 0), (136, 20, 0),
     (80, 48, 0), (0, 120, 0), (0, 104, 0), (0, 88, 0),
     (0, 64, 88), (0, 0, 0), (188, 188, 188), (248, 248, 248)]"
| "PALETTES ega =
    [(0, 0, 0), (0, 0, 170), (0, 170, 0), (0, 170, 170),
     (170, 0, 0), (170, 0, 170), (170, 85, 0), (170, 170, 170),
     (85, 85, 85), (85, 85, 255), (85, 255, 85), (85, 255, 255),
     (255, 85, 85), (255, 85, 255), (255, 255, 85), (255, 255, 255)]"
| "PALETTES c64 =
    [(0, 0, 0), (255, 255, 255), (136, 0, 0), (170, 255, 238),
     (204, 68, 204), (0, 204, 85), (0, 0, 170), (238, 238, 119),
     (221, 136, 85), (102, 68, 0), (255, 119, 119), (51, 51, 51),
     (119, 119, 119), (170, 255, 102), (0, 136, 255), (187, 187, 187)]"
| "PALETTES pico8 =
    [(0, 0, 0), (29, 43, 83), (126, 37, 83), (0, 135, 81),
     (171, 82, 54), (95, 87, 79), (194, 195, 199), (255, 241, 232),
     (255, 0, 77), (255, 163, 0), (255, 236, 39), (0, 228, 54),
     (41, 173, 255), (131, 118, 156), (255, 119, 168), (255, 204, 170)]"

definition BAYER_4X4 :: "nat list list" where
  "BAYER_4X4 = [[0, 8, 2, 10], [12, 4, 14, 6], [3, 11, 1, 9], [15, 7, 13, 5]]"

definition clamp255 :: "rat \<Rightarrow> rat" where
  "clamp255 v = (if v < 0 then 0 else if v > 255 then 255 else v)"

text \<open>
  \<open>bestD\<close> starts at \<^verbatim>\<open>Number.POSITIVE_INFINITY\<close>, which is \<open>None\<close> here: every distance is
  below it. The result is \<^verbatim>\<open>palette[bestIdx]\<close>, which is \<^verbatim>\<open>undefined\<close> (\<open>None\<close>) on an empty
  palette.
\<close>

definition findNearestInPalette :: "rat \<Rightarrow> rat \<Rightarrow> rat \<Rightarrow> rgb list \<Rightarrow> rgb option" where
  "findNearestInPalette r g b palette =
     (let (bestIdx, bestD) =
        fold (\<lambda>i (bestIdx, bestD).
                let (pr, pg, pb) = palette ! i;
                    dr = r - of_nat pr;
                    dg = g - of_nat pg;
                    db = b - of_nat pb;
                    d = 3 / 10 * dr * dr + 59 / 100 * dg * dg + 11 / 100 * db * db
                in if (case bestD of None \<Rightarrow> True | Some bd \<Rightarrow> d < bd)
                   then (i, Some d) else (bestIdx, bestD))
          [0..<length palette] (0, None)
      in if bestIdx < length palette then Some (palette ! bestIdx) else None)"

text \<open>
  The body of the pixel loop of \<^verbatim>\<open>quantizeImageToPalette\<close>. Destructuring the
  \<^verbatim>\<open>undefined\<close> that an empty palette returns throws \<^verbatim>\<open>TypeError\<close>.
\<close>

definition quantizePixel ::
  "ImageData \<Rightarrow> rgb list \<Rightarrow> rat \<Rightarrow> nat \<Rightarrow> nat \<Rightarrow> nat list \<Rightarrow> error + nat list" where
  "quantizePixel src palette ditherAmp y x outData =
     (let idx = (y * width src + x) * 4;
          a = data src ! (idx + 3)
      in if a < 5 then Inr (outData[idx := 0, idx + 1 := 0, idx + 2 := 0, idx + 3 := 0])
         else
           let r = of_nat (data src ! idx);
               g = of_nat (data src ! (idx + 1));
               b = of_nat (data src ! (idx + 2));
               (r', g', b') =
                 (if ditherAmp > 0 then
                    let t = of_nat (BAYER_4X4 ! (y mod 4) ! (x mod 4)) / 15;
                        offset = (t - 1 / 2) * 2 * ditherAmp;
                        yLum = 2126 / 10000 * r + 7152 / 10000 * g + 722 / 10000 * b
                    in (clamp255 (r + offset * (r / (yLum + 1))),
                        clamp255 (g + offset * (g / (yLum + 1))),
                        clamp255 (b + offset * (b / (yLum + 1))))
                  else (r, g, b))
           in case findNearestInPalette r' g' b' palette of
                None \<Rightarrow> Inl TypeError
              | Some (qr, qg, qb) \<Rightarrow>
                  Inr (outData[idx := toUint8Clamped qr, idx + 1 := toUint8Clamped qg,
                               idx + 2 := toUint8Clamped qb, idx + 3 := 255]))"

definition quantizeImageToPalette :: "ImageData \<Rightarrow> rgb list \<Rightarrow> rat \<Rightarrow> error + ImageData" where
  "quantizeImageToPalette src palette ditherStrength01 =
     (case newImageData (width src) (height src) of
        Inl e \<Rightarrow> Inl e
      | Inr out \<Rightarrow>
          let ditherAmp = max 0 (min 1 ditherStrength01) * 32
          in case forYX_err (height src) (width src) (quantizePixel src palette ditherAmp)
                    (data out) of
               Inl e \<Rightarrow> Inl e
             | Inr outData \<Rightarrow> Inr (out\<lparr>data := outData\<rparr>))"

section \<open>Outline extractor\<close>

text \<open>
  The 8-neighbourhood test of one dilation round: the two inner loops over \<open>dy\<close> and \<open>dx\<close>
  stop at the first set neighbour, so \<open>any\<close> is whether one exists.
\<close>

definition anyNeighbour :: "nat \<Rightarrow> nat \<Rightarrow> nat list \<Rightarrow> nat \<Rightarrow> nat \<Rightarrow> bool" where
  "anyNeighbour w h dilated y x =
     list_ex (\<lambda>dy. list_ex (\<lambda>dx.
         \<not> (dx = 0 \<and> dy = 0) \<and>
         (let nx = int x + dx; ny = int y + dy
          in nx \<ge> 0 \<and> nx < int w \<and> ny \<ge> 0 \<and> ny < int h \<and>
             dilated ! nat (ny * int w + nx) \<noteq> 0))
       [-1, 0, 1]) [-1, 0, 1]"

definition dilateRound :: "nat \<Rightarrow> nat \<Rightarrow> nat list \<Rightarrow> nat list" where
  "dilateRound w h dilated =
     forYX h w (\<lambda>y x next.
         let i = y * w + x
         in if dilated ! i \<noteq> 0 then next[i := 1]
            else if anyNeighbour w h dilated y x then next[i := 1] else next)
       (replicate (w * h) 0)"

definition alphaMask :: "ImageData \<Rightarrow> nat list" where
  "alphaMask src =
     fold (\<lambda>i msk. msk[i := (if data src ! (i * 4 + 3) > 10 then 1 else 0)])
       [0..<width src * height src] (replicate (width src * height src) 0)"

definition outlinePixel :: "nat \<Rightarrow> nat list \<Rightarrow> nat list \<Rightarrow> nat \<Rightarrow> nat \<Rightarrow> nat list \<Rightarrow> nat list" where
  "outlinePixel w msk dilated y x outData =
     (let i = y * w + x;
          inside = (msk ! i = 1);
          grown = (dilated ! i = 1);
          outline = (grown \<and> \<not> inside);
          idx = i * 4
      in if outline then outData[idx := 0, idx + 1 := 0, idx + 2 := 0, idx + 3 := 255]
         else outData[idx + 3 := 0])"

definition createPixelOutline :: "ImageData \<Rightarrow> int \<Rightarrow> error + ImageData" where
  "createPixelOutline src thickness =
     (let w = width src; h = height src;
          msk = alphaMask src
      in if thickness \<le> 0 then newImageData w h
         else
           let dilated = fold (\<lambda>t dilated. dilateRound w h dilated) [0..<nat thickness] msk
           in case newImageData w h of
                Inl e \<Rightarrow> Inl e
              | Inr out \<Rightarrow> Inr (out\<lparr>data := forYX h w (outlinePixel w msk dilated) (data out)\<rparr>))"

section \<open>Normalizer\<close>

text \<open>\<^verbatim>\<open>Math.round\<close>: the nearest integer, a tie going up.\<close>

definition jsRound :: "rat \<Rightarrow> int" where
  "jsRound v = \<lfloor>v + 1 / 2\<rfloor>"

text \<open>
  \<^verbatim>\<open>normalizeImageBlob\<close>. A blob stands for the image it decodes to. Within the limit the
  function returns \<^verbatim>\<open>input\<close> itself. Otherwise it sizes a canvas \<open>targetW \<times> targetH\<close>, draws the
  image into it with smoothing and returns the canvas as PNG; \<open>resample\<close> is that smoothed
  drawing, whose pixel values the platform decides.
\<close>

definition normalizeImageBlob ::
  "(ImageData \<Rightarrow> nat \<Rightarrow> nat \<Rightarrow> nat list) \<Rightarrow> ImageData \<Rightarrow> int \<Rightarrow> ImageData" where
  "normalizeImageBlob resample input longestSide =
     (let currentLongest = max (width input) (height input)
      in if int currentLongest \<le> longestSide then input
         else
           let scale = of_int longestSide / of_nat currentLongest;
               targetW = max 1 (jsRound (of_nat (width input) * scale));
               targetH = max 1 (jsRound (of_nat (height input) * scale))
           in \<lparr>width = nat targetW, height = nat targetH,
               data = resample input (nat targetW) (nat targetH)\<rparr>)"

section \<open>Canvas\<close>

text \<open>
  The 2D canvas as \<^verbatim>\<open>pixelateImage\<close> uses it, with \<^verbatim>\<open>imageSmoothingEnabled = false\<close>. A canvas
  is the buffer \<^verbatim>\<open>getImageData\<close> reads over its whole extent. \<^verbatim>\<open>drawImage\<close> samples the
  source rectangle at the centre of each destination pixel (nearest neighbour) and composites
  source-over: an opaque source pixel replaces the destination, a fully transparent one
  leaves it, and \<open>blend\<close> stands for the platform's mixing of a partly transparent one.
\<close>

definition newCanvas :: "nat \<Rightarrow> nat \<Rightarrow> ImageData" where
  "newCanvas w h = \<lparr>width = w, height = h, data = replicate (w * h * 4) 0\<rparr>"

definition sourceOver :: "(rgba \<Rightarrow> rgba \<Rightarrow> rgba) \<Rightarrow> rgba \<Rightarrow> rgba \<Rightarrow> rgba" where
  "sourceOver blend s d =
     (case s of (r, g, b, a) \<Rightarrow> if a = 255 then s else if a = 0 then d else blend s d)"

definition nearestSample :: "nat \<Rightarrow> nat \<Rightarrow> nat \<Rightarrow> nat" where
  "nearestSample i dw sw = ((2 * i + 1) * sw) div (2 * dw)"

definition drawImage ::
  "(rgba \<Rightarrow> rgba \<Rightarrow> rgba) \<Rightarrow> ImageData \<Rightarrow> nat \<Rightarrow> nat \<Rightarrow> nat \<Rightarrow> nat \<Rightarrow>
   ImageData \<Rightarrow> nat \<Rightarrow> nat \<Rightarrow> nat \<Rightarrow> nat \<Rightarrow> ImageData" where
  "drawImage blend src sx sy sw sh dst dx dy dw dh =
     dst\<lparr>data :=
       forYX (height dst) (width dst)
         (\<lambda>y x od.
            writePixel od (y * width dst + x)
              (if dx \<le> x \<and> x < dx + dw \<and> dy \<le> y \<and> y < dy + dh
               then
                 let u = sx + nearestSample (x - dx) dw sw;
                     v = sy + nearestSample (y - dy) dh sh;
                     s = (if u < width src \<and> v < height src then pixelAt src u v
                          else (0, 0, 0, 0))
                 in sourceOver blend s (readPx od (y * width dst + x))
               else readPx od (y * width dst + x)))
         (data dst)\<rparr>"

text \<open>\<^verbatim>\<open>fillRect\<close> with an opaque \<^verbatim>\<open>fillStyle\<close>.\<close>

definition fillRect :: "ImageData \<Rightarrow> nat \<Rightarrow> nat \<Rightarrow> nat \<Rightarrow> nat \<Rightarrow> rgba \<Rightarrow> ImageData" where
  "fillRect canvas fx fy fw fh colour =
     canvas\<lparr>data :=
       forYX (height canvas) (width canvas)
         (\<lambda>y x od.
            writePixel od (y * width canvas + x)
              (if fx \<le> x \<and> x < fx + fw \<and> fy \<le> y \<and> y < fy + fh then colour
               else readPx od (y * width canvas + x)))
         (data canvas)\<rparr>"

text \<open>\<^verbatim>\<open>getImageData(0, 0, w, h)\<close> of a \<open>w \<times> h\<close> canvas; a zero side raises.\<close>

definition getImageData :: "ImageData \<Rightarrow> error + ImageData" where
  "getImageData canvas =
     (if width canvas = 0 \<or> height canvas = 0 then Inl IndexSizeError else Inr canvas)"

text \<open>
  \<^verbatim>\<open>putImageData(image, 0, 0)\<close> onto a canvas of the image's size, the only use the pipeline
  makes of it: the image replaces the content.
\<close>

definition putImageData :: "ImageData \<Rightarrow> ImageData \<Rightarrow> ImageData" where
  "putImageData canvas im = canvas\<lparr>data := data im\<rparr>"

section \<open>Pipeline\<close>

text \<open>\<^verbatim>\<open>BACKGROUND_FILL = '#ed8d26'\<close>.\<close>

definition BACKGROUND_FILL :: rgba where
  "BACKGROUND_FILL = (237, 141, 38, 255)"

text \<open>The component state \<^verbatim>\<open>pixelateImage\<close> reads.\<close>

record PipelineState =
  paletteName :: PaletteName
  ditherEnabled :: bool
  ditherStrength :: rat
  outlineThickness :: rat

text \<open>
  Stage 2 of \<^verbatim>\<open>pixelateImage\<close>: the side of the small canvas,
  \<^verbatim>\<open>Math.max(8, Math.floor(cropDim / Math.max(1, blockSize)))\<close>, written once for both axes.
\<close>

definition smallSize :: "int \<Rightarrow> rat \<Rightarrow> int" where
  "smallSize cropDim blockSize = max 8 \<lfloor>of_int cropDim / max 1 blockSize\<rfloor>"

text \<open>
  \<^verbatim>\<open>pixelateImage\<close>, stage by stage. A blob stands for the image it decodes to and the result is
  the final canvas; decoding, PNG encoding and a missing 2D context are failures of the
  platform that no argument decides, and have no branch here. Rectangle sides and offsets,
  which are never negative in the pipeline, reach \<open>drawImage\<close> as naturals.
\<close>

definition pixelateImage ::
  "(rgba \<Rightarrow> rgba \<Rightarrow> rgba) \<Rightarrow> PipelineState \<Rightarrow> ImageData \<Rightarrow> rat \<Rightarrow> error + ImageData" where
  "pixelateImage blend st img blockSize =
     (let w = width img; h = height img;
          sourceCanvas = drawImage blend img 0 0 w h (newCanvas w h) 0 0 w h
      in case getImageData sourceCanvas of
           Inl e \<Rightarrow> Inl e
         | Inr srcImage \<Rightarrow>
      let cb = cropBounds srcImage;
          cropCanvas =
            drawImage blend sourceCanvas (nat (rect_x cb)) (nat (rect_y cb))
              (nat (rect_w cb)) (nat (rect_h cb))
              (newCanvas (nat (max 1 (rect_w cb))) (nat (max 1 (rect_h cb))))
              0 0 (nat (rect_w cb)) (nat (rect_h cb));
          smallW = smallSize (rect_w cb) blockSize;
          smallH = smallSize (rect_h cb) blockSize;
          smallCanvas =
            drawImage blend cropCanvas 0 0 (nat (rect_w cb)) (nat (rect_h cb))
              (newCanvas (nat smallW) (nat smallH)) 0 0 (nat smallW) (nat smallH)
      in case getImageData smallCanvas of
           Inl e \<Rightarrow> Inl e
         | Inr smallImage \<Rightarrow>
      let paletteRgb = PALETTES (paletteName st);
          ditherAmt = (if ditherEnabled st then ditherStrength st else 0)
      in case quantizeImageToPalette smallImage paletteRgb ditherAmt of
           Inl e \<Rightarrow> Inl e
         | Inr quantized \<Rightarrow>
      let smallCanvas' = putImageData smallCanvas quantized
      in case createPixelOutline quantized (max 0 \<lfloor>outlineThickness st\<rfloor>) of
           Inl e \<Rightarrow> Inl e
         | Inr outlineImage \<Rightarrow>
      let outlineCanvas = putImageData (newCanvas (nat smallW) (nat smallH)) outlineImage;
          square = max (rect_w cb) (rect_h cb);
          finalCanvas =
            fillRect (newCanvas (nat square) (nat square)) 0 0 (nat square) (nat square)
              BACKGROUND_FILL;
          coverage = (6 / 10 :: rat);
          smallLongest = max smallW smallH;
          scaledLongest = max 1 \<lfloor>of_int square * coverage\<rfloor>;
          k = (of_int scaledLongest / of_int smallLongest :: rat);
          targetW = max 1 \<lfloor>of_int smallW * k\<rfloor>;
          targetH = max 1 \<lfloor>of_int smallH * k\<rfloor>;
          offsetX = \<lfloor>(of_int square - of_int targetW :: rat) / 2\<rfloor>;
          offsetY = \<lfloor>(of_int square - of_int targetH :: rat) / 2\<rfloor>;
          withOutline =
            drawImage blend outlineCanvas 0 0 (nat smallW) (nat smallH)
              finalCanvas (nat offsetX) (nat offsetY) (nat targetW) (nat targetH)
      in Inr (drawImage blend smallCanvas' 0 0 (nat smallW) (nat smallH)
                withOutline (nat offsetX) (nat offsetY) (nat targetW) (nat targetH)))"

section \<open>Sample buffers\<close>

definition sample2x1 :: ImageData where
  "sample2x1 = \<lparr>width = 2, height = 1, data = [200, 10, 10, 255, 0, 0, 0, 0]\<rparr>"

definition clear2x1 :: ImageData where
  "clear2x1 = \<lparr>width = 2, height = 1, data = [9, 9, 9, 0, 1, 2, 3, 16]\<rparr>"

definition onePixel :: ImageData where
  "onePixel = \<lparr>width = 1, height = 1, data = [255, 0, 0, 255]\<rparr>"

definition opaque2x1 :: ImageData where
  "opaque2x1 = \<lparr>width = 2, height = 1, data = [255, 0, 0, 255, 0, 0, 255, 200]\<rparr>"

section \<open>Definitions for the specification and the proofs\<close>

text \<open>
  The specification's words, to compare the code with: the binary mask is alpha above \<open>10\<close>;
  in one round of 8-connected dilation a pixel of the buffer becomes set if it or one of its
  8 neighbours inside the buffer was set in the round before. \<open>encodes\<close> relates a
  \<^verbatim>\<open>Uint8Array\<close> of the code to the mask it stands for.
\<close>

definition maskAt :: "ImageData \<Rightarrow> nat \<Rightarrow> nat \<Rightarrow> bool" where
  "maskAt src x y \<longleftrightarrow> x < width src \<and> y < height src \<and> alphaAt src x y > 10"

definition dilate_spec :: "nat \<Rightarrow> nat \<Rightarrow> (nat \<Rightarrow> nat \<Rightarrow> bool) \<Rightarrow> nat \<Rightarrow> nat \<Rightarrow> bool" where
  "dilate_spec w h m x y \<longleftrightarrow>
     x < w \<and> y < h \<and>
     list_ex (\<lambda>x'. list_ex (\<lambda>y'.
         m x' y' \<and> \<bar>int x - int x'\<bar> \<le> 1 \<and> \<bar>int y - int y'\<bar> \<le> 1) [0..<h]) [0..<w]"

definition encodes :: "nat \<Rightarrow> nat \<Rightarrow> nat list \<Rightarrow> (nat \<Rightarrow> nat \<Rightarrow> bool) \<Rightarrow> bool" where
  "encodes w h d m \<longleftrightarrow>
     length d = w * h \<and> (\<forall>x < w. \<forall>y < h. d ! (y * w + x) = (if m x y then 1 else 0))"

text \<open>
  The distance \<open>d\<close> of the loop body and one step of the loop, named for the proofs;
  \<open>findNearest_fold\<close> shows they are the loop of \<open>findNearestInPalette\<close>.
\<close>

definition weightedDist :: "rat \<Rightarrow> rat \<Rightarrow> rat \<Rightarrow> rgb \<Rightarrow> rat" where
  "weightedDist r g b p =
     (case p of (pr, pg, pb) \<Rightarrow>
        3 / 10 * (r - of_nat pr) * (r - of_nat pr) + 59 / 100 * (g - of_nat pg) * (g - of_nat pg)
        + 11 / 100 * (b - of_nat pb) * (b - of_nat pb))"

definition nearestStep ::
  "rat \<Rightarrow> rat \<Rightarrow> rat \<Rightarrow> rgb list \<Rightarrow> nat \<Rightarrow> nat \<times> rat option \<Rightarrow> nat \<times> rat option" where
  "nearestStep r g b palette i st =
     (if (case snd st of None \<Rightarrow> True | Some bd \<Rightarrow> weightedDist r g b (palette ! i) < bd)
      then (i, Some (weightedDist r g b (palette ! i))) else st)"

text \<open>
  What one iteration of the pixel loop writes, named for the proofs: \<open>ditherChannels\<close> is the
  perturbed channels, \<open>quantColour\<close> the colour stored for pixel \<open>(x, y)\<close> (\<open>None\<close> where the
  body throws). \<open>quantizePixel_eq\<close> shows they are the body.
\<close>

definition ditherChannels :: "rat \<Rightarrow> nat \<Rightarrow> nat \<Rightarrow> rat \<Rightarrow> rat \<Rightarrow> rat \<Rightarrow> rat \<times> rat \<times> rat" where
  "ditherChannels ditherAmp y x r g b =
     (if ditherAmp > 0 then
        let t = of_nat (BAYER_4X4 ! (y mod 4) ! (x mod 4)) / 15;
            offset = (t - 1 / 2) * 2 * ditherAmp;
            yLum = 2126 / 10000 * r + 7152 / 10000 * g + 722 / 10000 * b
        in (clamp255 (r + offset * (r / (yLum + 1))),
            clamp255 (g + offset * (g / (yLum + 1))),
            clamp255 (b + offset * (b / (yLum + 1))))
      else (r, g, b))"

definition quantColour :: "ImageData \<Rightarrow> rgb list \<Rightarrow> rat \<Rightarrow> nat \<Rightarrow> nat \<Rightarrow> rgba option" where
  "quantColour src palette ditherAmp y x =
     (if alphaAt src x y < 5 then Some (0, 0, 0, 0)
      else
        case ditherChannels ditherAmp y x
               (of_nat (data src ! ((y * width src + x) * 4)))
               (of_nat (data src ! ((y * width src + x) * 4 + 1)))
               (of_nat (data src ! ((y * width src + x) * 4 + 2))) of
          (r', g', b') \<Rightarrow>
            (case findNearestInPalette r' g' b' palette of
               None \<Rightarrow> None
             | Some (qr, qg, qb) \<Rightarrow>
                 Some (toUint8Clamped qr, toUint8Clamped qg, toUint8Clamped qb, 255)))"

text \<open>A palette of the data model: a non-empty sequence of 8-bit RGB triples.\<close>

definition wf_palette :: "rgb list \<Rightarrow> bool" where
  "wf_palette palette \<longleftrightarrow>
     palette \<noteq> [] \<and> list_all (\<lambda>(r, g, b). r \<le> 255 \<and> g \<le> 255 \<and> b \<le> 255) palette"

text \<open>\<open>qualifies\<close> is the loop's test \<^verbatim>\<open>a > alphaThreshold\<close> at a pixel \<open>(y, x)\<close>.\<close>

definition qualifies :: "ImageData \<Rightarrow> int \<Rightarrow> nat \<times> nat \<Rightarrow> bool" where
  "qualifies img thr p \<longleftrightarrow> (case p of (y, x) \<Rightarrow> int (alphaAt img x y) > thr)"

text \<open>
  \<open>solidImage w h c\<close> is the \<open>w \<times> h\<close> buffer whose every pixel is \<open>c\<close>; \<open>wf_canvas\<close> is the length
  invariant of a canvas, whose sides may be zero.
\<close>

definition solidImage :: "nat \<Rightarrow> nat \<Rightarrow> rgba \<Rightarrow> ImageData" where
  "solidImage w h c =
     (case c of (r, g, b, a) \<Rightarrow>
        \<lparr>width = w, height = h, data = concat (replicate (w * h) [r, g, b, a])\<rparr>)"

definition wf_canvas :: "ImageData \<Rightarrow> bool" where
  "wf_canvas c \<longleftrightarrow> length (data c) = width c * height c * 4"

text \<open>
  The specification's words for the compositor: the sprite occupies the target rectangle of
  \<open>floor(smallW * k) \<times> floor(smallH * k)\<close> pixels, at least one each, for
  \<open>k = floor(square * coverage) / max(smallW, smallH)\<close>, centred by the offsets
  \<open>floor((square - target) / 2)\<close>.
\<close>

definition spriteRegion :: "rat \<Rightarrow> int \<Rightarrow> int \<Rightarrow> int \<Rightarrow> nat \<Rightarrow> nat \<Rightarrow> bool" where
  "spriteRegion coverage square smallW smallH x y =
     (let k = (of_int \<lfloor>of_int square * coverage\<rfloor> / of_int (max smallW smallH) :: rat);
          targetW = max 1 \<lfloor>of_int smallW * k\<rfloor>;
          targetH = max 1 \<lfloor>of_int smallH * k\<rfloor>;
          offsetX = \<lfloor>(of_int square - of_int targetW :: rat) / 2\<rfloor>;
          offsetY = \<lfloor>(of_int square - of_int targetH :: rat) / 2\<rfloor>
      in offsetX \<le> int x \<and> int x < offsetX + targetW \<and>
         offsetY \<le> int y \<and> int y < offsetY + targetH)"

section \<open>Loops that write disjoint blocks\<close>

text \<open>
  The pixel loops write, at step \<open>(y, x)\<close>, only the bytes of pixel \<open>y * w + x\<close>. The lemmas below
  read a byte of the final array off the one step that owns it.
\<close>

lemma fold_product:
  "fold (\<lambda>y. fold (\<lambda>x. body y x) xs) ys s = fold (\<lambda>(y, x). body y x) (List.product ys xs) s"
  by (induction ys arbitrary: s) (simp_all add: fold_map comp_def)

lemma forYX_product:
  "forYX h w body s = fold (\<lambda>(y, x). body y x) (List.product [0..<h] [0..<w]) s"
  by (simp add: forYX_def fold_product)

lemma product_snoc:
  "List.product (ys @ [y]) xs = List.product ys xs @ map (Pair y) xs"
  by (induction ys) simp_all

lemma product_upt_index:
  "map (\<lambda>(y, x). y * w + x) (List.product [0..<h] [0..<w]) = [0..<h * w]"
proof (induction h)
  case 0
  show ?case by simp
next
  case (Suc h)
  have a: "map (\<lambda>x. h * w + x) [0..<w] = [h * w..<h * w + w]"
    using map_add_upt [of "h * w" w] by (simp add: add.commute)
  have b: "[0..<h * w + w] = [0..<h * w] @ [h * w..<h * w + w]"
    by (rule upt_add_eq_append) simp
  have "map (\<lambda>(y, x). y * w + x) (List.product [0..<Suc h] [0..<w])
      = map (\<lambda>(y, x). y * w + x) (List.product [0..<h] [0..<w]) @ map (\<lambda>x. h * w + x) [0..<w]"
    by (simp add: product_snoc comp_def)
  also have "\<dots> = [0..<h * w] @ [h * w..<h * w + w]"
    by (simp only: Suc a)
  also have "\<dots> = [0..<Suc h * w]"
    using b by (simp add: add.commute)
  finally show ?case .
qed

lemma fold_frame:
  assumes "\<And>k s. k \<in> set ks \<Longrightarrow> key j \<noteq> blk k \<Longrightarrow> g k s ! j = s ! j"
    and "key j \<notin> blk ` set ks"
  shows "fold g ks s ! j = s ! j"
  using assms
proof (induction ks arbitrary: s)
  case Nil
  show ?case by simp
next
  case (Cons a ks)
  have "fold g ks (g a s) ! j = g a s ! j"
  proof (rule Cons.IH)
    show "\<And>k s. k \<in> set ks \<Longrightarrow> key j \<noteq> blk k \<Longrightarrow> g k s ! j = s ! j"
      using Cons.prems(1) by simp
    show "key j \<notin> blk ` set ks" using Cons.prems(2) by simp
  qed
  moreover have "g a s ! j = s ! j"
  proof (rule Cons.prems(1))
    show "a \<in> set (a # ks)" by simp
    show "key j \<noteq> blk a" using Cons.prems(2) by simp
  qed
  ultimately show ?case by simp
qed

lemma fold_length:
  assumes "\<And>k s. k \<in> set ks \<Longrightarrow> length (g k s) = length s"
  shows "length (fold g ks s) = length s"
  using assms
proof (induction ks arbitrary: s)
  case Nil
  show ?case by simp
next
  case (Cons a ks)
  have "length (fold g ks (g a s)) = length (g a s)"
  proof (rule Cons.IH)
    show "\<And>k s. k \<in> set ks \<Longrightarrow> length (g k s) = length s"
      using Cons.prems by simp
  qed
  moreover have "length (g a s) = length s"
    by (rule Cons.prems) simp
  ultimately show ?case by simp
qed

lemma fold_hit:
  fixes g :: "'k \<Rightarrow> 'a list \<Rightarrow> 'a list"
  assumes frame: "\<And>k s i. k \<in> set ks \<Longrightarrow> key i \<noteq> blk k \<Longrightarrow> g k s ! i = s ! i"
    and len: "\<And>k s. k \<in> set ks \<Longrightarrow> length (g k s) = length s"
    and loc: "\<And>k s s' i. k \<in> set ks \<Longrightarrow> length s = length s' \<Longrightarrow>
                (\<forall>i'. key i' = blk k \<longrightarrow> s ! i' = s' ! i') \<Longrightarrow> key i = blk k \<Longrightarrow>
                g k s ! i = g k s' ! i"
    and dist: "distinct (map blk ks)"
    and k: "k \<in> set ks" and j: "key j = blk k"
  shows "fold g ks s ! j = g k s ! j"
  using assms
proof (induction ks arbitrary: s)
  case Nil
  show ?case using Nil.prems(5) by simp
next
  case (Cons a ks)
  note frame' = Cons.prems(1) [OF list.set_intros(2)]
  note len' = Cons.prems(2) [OF list.set_intros(2)]
  note loc' = Cons.prems(3) [OF list.set_intros(2)]
  have dist': "distinct (map blk ks)" and notin: "blk a \<notin> blk ` set ks"
    using Cons.prems(4) by simp_all
  show ?case
  proof (cases "k = a")
    case True
    have nj: "key j \<notin> blk ` set ks"
      using notin Cons.prems(6) True by simp
    have "fold g ks (g a s) ! j = g a s ! j"
    proof (rule fold_frame [where key = key and blk = blk and g = g])
      fix k' s' assume "k' \<in> set ks" "key j \<noteq> blk k'"
      then show "g k' s' ! j = s' ! j" by (rule frame')
    next
      show "key j \<notin> blk ` set ks" by (rule nj)
    qed
    then show ?thesis using True by simp
  next
    case False
    then have kin: "k \<in> set ks" using Cons.prems(5) by simp
    have ne: "blk a \<noteq> blk k" using notin kin by blast
    have "fold g ks (g a s) ! j = g k (g a s) ! j"
      using frame' len' loc' dist' kin Cons.prems(6) by (rule Cons.IH)
    also have "g k (g a s) ! j = g k s ! j"
    proof (rule Cons.prems(3))
      show "k \<in> set (a # ks)" using kin by simp
      show "length (g a s) = length s" by (rule Cons.prems(2)) simp
      show "\<forall>i'. key i' = blk k \<longrightarrow> g a s ! i' = s ! i'"
      proof (intro allI impI)
        fix i' assume "key i' = blk k"
        then have "key i' \<noteq> blk a" using ne by simp
        moreover have "a \<in> set (a # ks)" by simp
        ultimately show "g a s ! i' = s ! i'" by (rule Cons.prems(1) [rotated])
      qed
      show "key j = blk k" by (rule Cons.prems(6))
    qed
    finally show ?thesis by simp
  qed
qed

lemma forYX_err_pure:
  assumes "\<And>y x s. y < h \<Longrightarrow> x < w \<Longrightarrow> body y x s = Inr (body' y x s)"
  shows "forYX_err h w body s = Inr (forYX h w body' s)"
proof -
  have inner: "fold (\<lambda>x r. case r of Inl e \<Rightarrow> Inl e | Inr s' \<Rightarrow> body y x s') xs (Inr t)
      = Inr (fold (\<lambda>x. body' y x) xs t)" if "y < h" "set xs \<subseteq> {..<w}" for y xs t
    using that(2) by (induction xs arbitrary: t) (simp_all add: assms that(1))
  have inner': "fold (\<lambda>x r. case r of Inl e \<Rightarrow> Inl e | Inr s' \<Rightarrow> body y x s') [0..<w] (Inr t)
      = Inr (fold (\<lambda>x. body' y x) [0..<w] t)" if "y < h" for y t
    using that by (intro inner) auto
  have outer: "fold (\<lambda>y. fold (\<lambda>x r. case r of Inl e \<Rightarrow> Inl e | Inr s' \<Rightarrow> body y x s') [0..<w]) ys (Inr t)
      = Inr (fold (\<lambda>y. fold (\<lambda>x. body' y x) [0..<w]) ys t)" if "set ys \<subseteq> {..<h}" for ys t
    using that by (induction ys arbitrary: t) (simp_all add: inner')
  show ?thesis unfolding forYX_err_def forYX_def by (rule outer) auto
qed

lemma forYX_length:
  assumes "\<And>y x s. y < h \<Longrightarrow> x < w \<Longrightarrow> length (body y x s) = length s"
  shows "length (forYX h w body s) = length s"
  unfolding forYX_product
  by (rule fold_length) (auto simp: assms)

lemma forYX_nth:
  fixes body :: "nat \<Rightarrow> nat \<Rightarrow> 'a list \<Rightarrow> 'a list"
  assumes frame: "\<And>y x s i. y < h \<Longrightarrow> x < w \<Longrightarrow> key i \<noteq> y * w + x \<Longrightarrow> body y x s ! i = s ! i"
    and len: "\<And>y x s. y < h \<Longrightarrow> x < w \<Longrightarrow> length (body y x s) = length s"
    and loc: "\<And>y x s s' i. y < h \<Longrightarrow> x < w \<Longrightarrow> length s = length s' \<Longrightarrow>
                (\<forall>i'. key i' = y * w + x \<longrightarrow> s ! i' = s' ! i') \<Longrightarrow> key i = y * w + x \<Longrightarrow>
                body y x s ! i = body y x s' ! i"
    and y: "y < h" and x: "x < w" and j: "key j = y * w + x"
  shows "forYX h w body s ! j = body y x s ! j"
proof -
  let ?g = "\<lambda>(y, x). body y x"
  let ?blk = "\<lambda>(y, x). y * w + x"
  let ?ks = "List.product [0..<h] [0..<w]"
  have "fold ?g ?ks s ! j = ?g (y, x) s ! j"
  proof (rule fold_hit [where key = key and blk = ?blk])
    show "distinct (map ?blk ?ks)" by (simp only: product_upt_index distinct_upt)
    show "(y, x) \<in> set ?ks" using y x by simp
    show "key j = ?blk (y, x)" using j by simp
  next
    fix k s i assume a: "k \<in> set ?ks" "key i \<noteq> ?blk k"
    obtain y' x' where k: "k = (y', x')" by (cases k)
    show "?g k s ! i = s ! i" using a unfolding k by (simp add: frame)
  next
    fix k s assume a: "k \<in> set ?ks"
    obtain y' x' where k: "k = (y', x')" by (cases k)
    show "length (?g k s) = length s" using a unfolding k by (simp add: len)
  next
    fix k i and s s' :: "'a list"
    assume a: "k \<in> set ?ks" "length s = length s'"
      "\<forall>i'. key i' = ?blk k \<longrightarrow> s ! i' = s' ! i'" "key i = ?blk k"
    obtain y' x' where k: "k = (y', x')" by (cases k)
    have "body y' x' s ! i = body y' x' s' ! i"
      using a unfolding k by (intro loc) simp_all
    then show "?g k s ! i = ?g k s' ! i" unfolding k by simp
  qed
  then show ?thesis by (simp add: forYX_product)
qed

lemma pixel_index_bound: "x < w \<Longrightarrow> y < h \<Longrightarrow> y * w + x < w * (h::nat)"
proof -
  assume x: "x < w" and y: "y < h"
  have "y * w + x < y * w + w" using x by simp
  also have "\<dots> = Suc y * w" by simp
  also have "\<dots> \<le> h * w" using y by (intro mult_le_mono1) simp
  finally show ?thesis by (simp add: mult.commute)
qed

lemma byte_index_div: "c < 4 \<Longrightarrow> (n * 4 + c) div 4 = (n::nat)"
  by simp

lemma nth_update_if: "xs[i := v] ! j = (if i = j \<and> j < length xs then v else xs ! j)"
  by (cases "i < length xs") (auto simp: nth_list_update list_update_beyond)

lemma outlinePixel_frame:
  "i div 4 \<noteq> y * w + x \<Longrightarrow> outlinePixel w msk dilated y x s ! i = s ! i"
  by (auto simp: outlinePixel_def Let_def nth_update_if)

lemma outlinePixel_length: "length (outlinePixel w msk dilated y x s) = length s"
  by (simp add: outlinePixel_def Let_def)

lemma outlinePixel_local:
  "length s = length s' \<Longrightarrow> (\<forall>i'. i' div 4 = y * w + x \<longrightarrow> s ! i' = s' ! i') \<Longrightarrow>
   i div 4 = y * w + x \<Longrightarrow>
   outlinePixel w msk dilated y x s ! i = outlinePixel w msk dilated y x s' ! i"
  by (simp add: outlinePixel_def Let_def nth_update_if)

lemma outline_loop_nth:
  assumes "x < w" "y < h" "i div 4 = y * w + x"
  shows "forYX h w (outlinePixel w msk dilated) s ! i = outlinePixel w msk dilated y x s ! i"
proof (rule forYX_nth [where key = "\<lambda>i. i div 4"])
  show "y < h" "x < w" "i div 4 = y * w + x" using assms by simp_all
next
  fix y x i and s s' :: "nat list"
  assume "length s = length s'" "\<forall>i'. i' div 4 = y * w + x \<longrightarrow> s ! i' = s' ! i'"
    "i div 4 = y * w + x"
  then show "outlinePixel w msk dilated y x s ! i = outlinePixel w msk dilated y x s' ! i"
    by (rule outlinePixel_local)
qed (simp_all add: outlinePixel_frame outlinePixel_length)

lemma outline_loop_pixel:
  assumes x: "x < w" and y: "y < h"
  shows "pixelAt \<lparr>width = w, height = h,
            data = forYX h w (outlinePixel w msk dilated) (replicate (w * h * 4) 0)\<rparr> x y
         = (if dilated ! (y * w + x) = 1 \<and> msk ! (y * w + x) \<noteq> 1
            then (0, 0, 0, 255) else (0, 0, 0, 0))"
proof -
  have b: "(y * w + x) * 4 + 3 < w * h * 4"
    using pixel_index_bound [OF x y] by simp
  have d: "((y * w + x) * 4 + c) div 4 = y * w + x" if "c < 4" for c
    using that by simp
  have n: "forYX h w (outlinePixel w msk dilated) s ! ((y * w + x) * 4 + c)
         = outlinePixel w msk dilated y x s ! ((y * w + x) * 4 + c)" if "c < 4" for c s
    by (rule outline_loop_nth [OF x y d [OF that]])
  show ?thesis
    unfolding pixelAt_def Let_def
    using b n [of 0] n [of 1] n [of 2] n [of 3]
    by (simp add: outlinePixel_def Let_def nth_update_if del: add_mult_distrib add_mult_distrib2)
qed

section \<open>Outline extractor: the mask and the output loop\<close>

lemma alphaMask_length: "length (alphaMask src) = width src * height src"
  unfolding alphaMask_def by (subst fold_length) simp_all

lemma alphaMask_nth:
  assumes "i < width src * height src"
  shows "alphaMask src ! i = (if data src ! (i * 4 + 3) > 10 then 1 else 0)"
proof -
  let ?g = "\<lambda>i msk. msk[i := (if data src ! (i * 4 + 3) > 10 then 1 else 0 :: nat)]"
  let ?n = "width src * height src"
  have "fold ?g [0..<?n] (replicate ?n 0) ! i = ?g i (replicate ?n 0) ! i"
  proof (rule fold_hit [where key = "\<lambda>i. i" and blk = "\<lambda>i. i"])
    show "distinct (map (\<lambda>i. i) [0..<?n])" by simp
    show "i \<in> set [0..<?n]" using assms by simp
    show "i = i" by simp
  next
    fix k i' and s s' :: "nat list"
    assume "length s = length s'" "\<forall>j. j = k \<longrightarrow> s ! j = s' ! j" "i' = k"
    then show "?g k s ! i' = ?g k s' ! i'" by (simp add: nth_update_if)
  qed (simp_all add: nth_update_if)
  then show ?thesis using assms by (simp add: alphaMask_def)
qed

lemma outline_zero_thickness:
  assumes "wf_ImageData src"
  shows "createPixelOutline src 0 =
           Inr \<lparr>width = width src, height = height src,
                data = replicate (width src * height src * 4) 0\<rparr>"
  using assms by (simp add: createPixelOutline_def newImageData_def wf_ImageData_def Let_def)

lemma blank_pixel:
  assumes "x < w" "y < h"
  shows "pixelAt \<lparr>width = w, height = h, data = replicate (w * h * 4) 0\<rparr> x y = (0, 0, 0, 0)"
proof -
  have "(y * w + x) * 4 + 3 < w * h * 4"
    using pixel_index_bound [OF assms] by simp
  then show ?thesis by (simp add: pixelAt_def Let_def del: add_mult_distrib add_mult_distrib2)
qed

lemma outline_positive_thickness:
  assumes "wf_ImageData src" "1 \<le> thickness"
  shows "createPixelOutline src thickness =
           Inr \<lparr>width = width src, height = height src,
                data = forYX (height src) (width src)
                  (outlinePixel (width src) (alphaMask src)
                     (fold (\<lambda>t. dilateRound (width src) (height src)) [0..<nat thickness]
                        (alphaMask src)))
                  (replicate (width src * height src * 4) 0)\<rparr>"
  using assms by (simp add: createPixelOutline_def newImageData_def wf_ImageData_def Let_def)

section \<open>Outline extractor: thickness zero and full masks\<close>

text \<open>
  Claim C8. For every well-formed input buffer, \<^verbatim>\<open>createPixelOutline\<close> called with thickness
  \<open>0\<close> returns a buffer of the same width and height in which every pixel is fully
  transparent: all four bytes of every pixel are \<open>0\<close>.
\<close>

theorem outline_thickness_zero_transparent:
  assumes "wf_ImageData src"
  shows "\<exists>out. createPixelOutline src 0 = Inr out \<and>
           width out = width src \<and> height out = height src \<and>
           length (data out) = width src * height src * 4 \<and>
           (\<forall>x < width src. \<forall>y < height src. pixelAt out x y = (0, 0, 0, 0))"
  using assms by (simp add: outline_zero_thickness blank_pixel)

theorem outline_thickness_zero_witness:
  "wf_ImageData sample2x1 \<and>
   (\<exists>out. createPixelOutline sample2x1 0 = Inr out \<and> width out = 2 \<and> height out = 1 \<and>
      pixelAt out 0 0 = (0, 0, 0, 0) \<and> pixelAt out 1 0 = (0, 0, 0, 0))"
proof -
  have wf: "wf_ImageData sample2x1"
    by (simp add: wf_ImageData_def sample2x1_def)
  from outline_thickness_zero_transparent [OF wf]
  obtain out where "createPixelOutline sample2x1 0 = Inr out" "width out = width sample2x1"
    "height out = height sample2x1"
    "\<forall>x < width sample2x1. \<forall>y < height sample2x1. pixelAt out x y = (0, 0, 0, 0)"
    by blast
  then show ?thesis using wf by (simp add: sample2x1_def)
qed

text \<open>
  Claim C10. For every well-formed buffer in which every pixel's alpha is above \<open>10\<close> and
  every thickness of at least \<open>1\<close>, \<^verbatim>\<open>createPixelOutline\<close> returns a fully transparent
  buffer of the same size: a full mask leaves no pixel for the outline band.
\<close>

theorem outline_full_mask_transparent:
  assumes wf: "wf_ImageData src"
    and full: "\<forall>x < width src. \<forall>y < height src. alphaAt src x y > 10"
    and t: "1 \<le> thickness"
  shows "\<exists>out. createPixelOutline src thickness = Inr out \<and>
           width out = width src \<and> height out = height src \<and>
           (\<forall>x < width src. \<forall>y < height src. pixelAt out x y = (0, 0, 0, 0))"
proof -
  have "pixelAt \<lparr>width = width src, height = height src,
                data = forYX (height src) (width src)
                  (outlinePixel (width src) (alphaMask src)
                     (fold (\<lambda>t. dilateRound (width src) (height src)) [0..<nat thickness]
                        (alphaMask src)))
                  (replicate (width src * height src * 4) 0)\<rparr> x y = (0, 0, 0, 0)"
    if x: "x < width src" and y: "y < height src" for x y
  proof -
    have "alphaMask src ! (y * width src + x) = 1"
      using full x y pixel_index_bound [OF x y]
      by (simp add: alphaMask_nth alphaAt_def)
    then show ?thesis by (simp add: outline_loop_pixel [OF x y])
  qed
  then show ?thesis by (simp add: outline_positive_thickness [OF wf t])
qed

theorem outline_full_mask_witness:
  "wf_ImageData opaque2x1 \<and> alphaAt opaque2x1 0 0 > 10 \<and> alphaAt opaque2x1 1 0 > 10 \<and>
   (\<exists>out. createPixelOutline opaque2x1 2 = Inr out \<and>
      pixelAt out 0 0 = (0, 0, 0, 0) \<and> pixelAt out 1 0 = (0, 0, 0, 0))"
proof -
  have wf: "wf_ImageData opaque2x1"
    by (simp add: wf_ImageData_def opaque2x1_def)
  have a: "alphaAt opaque2x1 0 0 > 10" "alphaAt opaque2x1 1 0 > 10"
    by (simp_all add: alphaAt_def opaque2x1_def)
  have full: "\<forall>x < width opaque2x1. \<forall>y < height opaque2x1. alphaAt opaque2x1 x y > 10"
    using a by (simp add: opaque2x1_def less_Suc_eq numeral_2_eq_2)
  from outline_full_mask_transparent [OF wf full, of 2]
  obtain out where "createPixelOutline opaque2x1 2 = Inr out"
    "\<forall>x < width opaque2x1. \<forall>y < height opaque2x1. pixelAt out x y = (0, 0, 0, 0)"
    by auto
  then show ?thesis using wf a by (simp add: opaque2x1_def)
qed

section \<open>Outline extractor: the band is the dilation minus the mask\<close>

lemma dilateRound_length: "length (dilateRound w h d) = w * h"
  unfolding dilateRound_def by (subst forYX_length) (simp_all add: Let_def)

lemma dilateRound_nth:
  assumes x: "x < w" and y: "y < h"
  shows "dilateRound w h d ! (y * w + x) =
           (if d ! (y * w + x) \<noteq> 0 \<or> anyNeighbour w h d y x then 1 else 0)"
proof -
  let ?body = "\<lambda>y x next. let i = y * w + x
         in if d ! i \<noteq> 0 then next[i := 1]
            else if anyNeighbour w h d y x then next[i := 1::nat] else next"
  have "forYX h w ?body (replicate (w * h) 0) ! (y * w + x)
      = ?body y x (replicate (w * h) 0) ! (y * w + x)"
  proof (rule forYX_nth [where key = "\<lambda>i. i"])
    show "y < h" "x < w" "y * w + x = y * w + x" using x y by simp_all
  next
    fix y x i and s s' :: "nat list"
    assume "length s = length s'" "\<forall>i'. i' = y * w + x \<longrightarrow> s ! i' = s' ! i'" "i = y * w + x"
    then show "?body y x s ! i = ?body y x s' ! i"
      by (simp add: Let_def nth_update_if)
  qed (simp_all add: Let_def nth_update_if)
  then show ?thesis
    using pixel_index_bound [OF x y] by (simp add: dilateRound_def Let_def)
qed

lemma anyNeighbour_iff:
  "anyNeighbour w h d y x \<longleftrightarrow>
     (\<exists>dy \<in> {-1, 0, 1}. \<exists>dx \<in> {-1, 0, 1}. \<not> (dx = 0 \<and> dy = 0) \<and>
        int x + dx \<ge> 0 \<and> int x + dx < int w \<and> int y + dy \<ge> 0 \<and> int y + dy < int h \<and>
        d ! nat ((int y + dy) * int w + (int x + dx)) \<noteq> 0)"
  unfolding anyNeighbour_def list_ex_iff Let_def by simp

lemma int_pixel_index: "nat (int y' * int w + int x') = y' * w + x'"
  by (simp add: nat_add_distrib nat_mult_distrib)

lemma dilate_step_iff:
  assumes enc: "encodes w h d m" and x: "x < w" and y: "y < h"
  shows "(d ! (y * w + x) \<noteq> 0 \<or> anyNeighbour w h d y x) \<longleftrightarrow> dilate_spec w h m x y"
proof
  assume "d ! (y * w + x) \<noteq> 0 \<or> anyNeighbour w h d y x"
  then have "\<exists>x' < w. \<exists>y' < h. m x' y' \<and> \<bar>int x - int x'\<bar> \<le> 1 \<and> \<bar>int y - int y'\<bar> \<le> 1"
  proof
    assume "d ! (y * w + x) \<noteq> 0"
    then have "m x y" using enc x y by (auto simp: encodes_def split: if_splits)
    then show ?thesis using x y by (intro exI [of _ x] conjI exI [of _ y]) simp_all
  next
    assume "anyNeighbour w h d y x"
    then obtain dy dx :: int where dy: "dy \<in> {-1, 0, 1}" and dx: "dx \<in> {-1, 0, 1}"
      and rng: "int x + dx \<ge> 0" "int x + dx < int w" "int y + dy \<ge> 0" "int y + dy < int h"
      and set: "d ! nat ((int y + dy) * int w + (int x + dx)) \<noteq> 0"
      unfolding anyNeighbour_iff by blast
    define x' where "x' = nat (int x + dx)"
    define y' where "y' = nat (int y + dy)"
    have x': "int x' = int x + dx" "x' < w" and y': "int y' = int y + dy" "y' < h"
      using rng by (simp_all add: x'_def y'_def)
    have "d ! (y' * w + x') \<noteq> 0"
      using set x'(1) y'(1) int_pixel_index [of y' w x'] by simp
    then have "m x' y'" using enc x'(2) y'(2) by (auto simp: encodes_def split: if_splits)
    moreover have "\<bar>int x - int x'\<bar> \<le> 1" "\<bar>int y - int y'\<bar> \<le> 1"
      using dx dy x'(1) y'(1) by auto
    ultimately show ?thesis using x'(2) y'(2) by blast
  qed
  then obtain x' y' where "x' < w" "y' < h" "m x' y'"
    "\<bar>int x - int x'\<bar> \<le> 1" "\<bar>int y - int y'\<bar> \<le> 1"
    by blast
  then have "\<exists>x' \<in> set [0..<w]. \<exists>y' \<in> set [0..<h].
      m x' y' \<and> \<bar>int x - int x'\<bar> \<le> 1 \<and> \<bar>int y - int y'\<bar> \<le> 1"
    by (intro bexI [of _ x'] bexI [of _ y']) simp_all
  then show "dilate_spec w h m x y"
    using x y unfolding dilate_spec_def list_ex_iff by simp
next
  assume "dilate_spec w h m x y"
  then obtain x' y' where x': "x' < w" and y': "y' < h" and m: "m x' y'"
    and near: "\<bar>int x - int x'\<bar> \<le> 1" "\<bar>int y - int y'\<bar> \<le> 1"
    unfolding dilate_spec_def list_ex_iff by auto
  have set: "d ! (y' * w + x') \<noteq> 0"
    using enc x' y' m by (simp add: encodes_def)
  show "d ! (y * w + x) \<noteq> 0 \<or> anyNeighbour w h d y x"
  proof (cases "x' = x \<and> y' = y")
    case True
    then show ?thesis using set by simp
  next
    case False
    define dx where "dx = int x' - int x"
    define dy where "dy = int y' - int y"
    have dx: "dx \<in> {-1, 0, 1}" and dy: "dy \<in> {-1, 0, 1}"
      using near by (auto simp: dx_def dy_def)
    have nz: "\<not> (dx = 0 \<and> dy = 0)" using False by (auto simp: dx_def dy_def)
    have eq: "int x + dx = int x'" "int y + dy = int y'" by (simp_all add: dx_def dy_def)
    have "d ! nat ((int y + dy) * int w + (int x + dx)) \<noteq> 0"
      unfolding eq int_pixel_index by (rule set)
    moreover have "int x + dx \<ge> 0" "int x + dx < int w" "int y + dy \<ge> 0" "int y + dy < int h"
      using x' y' by (simp_all add: eq)
    ultimately have "anyNeighbour w h d y x"
      unfolding anyNeighbour_iff using dx dy nz by blast
    then show ?thesis by simp
  qed
qed

lemma dilateRound_encodes:
  assumes "encodes w h d m"
  shows "encodes w h (dilateRound w h d) (dilate_spec w h m)"
  unfolding encodes_def
proof (intro conjI allI impI)
  show "length (dilateRound w h d) = w * h" by (rule dilateRound_length)
next
  fix x y assume x: "x < w" and y: "y < h"
  show "dilateRound w h d ! (y * w + x) = (if dilate_spec w h m x y then 1 else 0)"
    using dilate_step_iff [OF assms x y] by (simp add: dilateRound_nth [OF x y])
qed

lemma alphaMask_encodes: "encodes (width src) (height src) (alphaMask src) (maskAt src)"
  unfolding encodes_def
proof (intro conjI allI impI)
  show "length (alphaMask src) = width src * height src" by (rule alphaMask_length)
next
  fix x y assume x: "x < width src" and y: "y < height src"
  show "alphaMask src ! (y * width src + x) = (if maskAt src x y then 1 else 0)"
    using x y pixel_index_bound [OF x y]
    by (simp add: alphaMask_nth maskAt_def alphaAt_def)
qed

lemma fold_rounds: "fold (\<lambda>t. f) [0..<n] s = (f ^^ n) s"
  by (induction n) simp_all

lemma dilated_encodes:
  "encodes (width src) (height src)
     ((dilateRound (width src) (height src) ^^ n) (alphaMask src))
     ((dilate_spec (width src) (height src) ^^ n) (maskAt src))"
  by (induction n) (simp_all add: alphaMask_encodes dilateRound_encodes)

text \<open>
  Claim C3. For every well-formed buffer and every thickness of at least \<open>1\<close>, a pixel of the
  output of \<^verbatim>\<open>createPixelOutline\<close> is opaque black \<open>(0, 0, 0, 255)\<close> exactly when it is set in
  the thickness-round 8-connected dilation of the mask and not set in the mask itself; every
  other pixel is \<open>(0, 0, 0, 0)\<close>. In particular no pixel whose input alpha is above \<open>10\<close> is
  painted as outline.
\<close>

theorem outline_band_is_dilation_minus_mask:
  assumes wf: "wf_ImageData src" and t: "1 \<le> thickness"
  shows "\<exists>out. createPixelOutline src thickness = Inr out \<and>
           width out = width src \<and> height out = height src \<and>
           (\<forall>x < width src. \<forall>y < height src.
              pixelAt out x y =
                (if (dilate_spec (width src) (height src) ^^ nat thickness) (maskAt src) x y \<and>
                    \<not> maskAt src x y
                 then (0, 0, 0, 255) else (0, 0, 0, 0)) \<and>
              (alphaAt src x y > 10 \<longrightarrow> pixelAt out x y \<noteq> (0, 0, 0, 255)))"
proof -
  let ?w = "width src" and ?h = "height src"
  let ?D = "fold (\<lambda>t. dilateRound ?w ?h) [0..<nat thickness] (alphaMask src)"
  let ?out = "\<lparr>width = ?w, height = ?h,
                data = forYX ?h ?w (outlinePixel ?w (alphaMask src) ?D)
                  (replicate (?w * ?h * 4) 0)\<rparr>"
  have D: "encodes ?w ?h ?D ((dilate_spec ?w ?h ^^ nat thickness) (maskAt src))"
    by (simp only: fold_rounds dilated_encodes)
  have M: "encodes ?w ?h (alphaMask src) (maskAt src)"
    by (rule alphaMask_encodes)
  have px: "pixelAt ?out x y =
      (if (dilate_spec ?w ?h ^^ nat thickness) (maskAt src) x y \<and> \<not> maskAt src x y
       then (0, 0, 0, 255) else (0, 0, 0, 0))"
    if x: "x < ?w" and y: "y < ?h" for x y
    using D M x y by (simp add: outline_loop_pixel [OF x y] encodes_def)
  have "pixelAt ?out x y \<noteq> (0, 0, 0, 255)"
    if x: "x < ?w" and y: "y < ?h" and a: "alphaAt src x y > 10" for x y
    using a x y by (simp add: px [OF x y] maskAt_def)
  then show ?thesis
    using px by (simp add: outline_positive_thickness [OF wf t])
qed

theorem outline_band_witness:
  "wf_ImageData sample2x1 \<and> (1::int) \<le> 1 \<and>
   (\<exists>out. createPixelOutline sample2x1 1 = Inr out \<and>
      pixelAt out 0 0 = (0, 0, 0, 0) \<and> pixelAt out 1 0 = (0, 0, 0, 255))"
proof -
  have wf: "wf_ImageData sample2x1"
    by (simp add: wf_ImageData_def sample2x1_def)
  have m0: "maskAt sample2x1 0 0" and m1: "\<not> maskAt sample2x1 1 0"
    by (simp_all add: maskAt_def alphaAt_def sample2x1_def)
  have d1: "(dilate_spec 2 1 ^^ nat 1) (maskAt sample2x1) 1 0"
    using m0 by (simp add: dilate_spec_def upt_rec [of 0] upt_rec [of 1])
  from outline_band_is_dilation_minus_mask [OF wf, of 1]
  obtain out where o: "createPixelOutline sample2x1 1 = Inr out"
    and px: "\<forall>x < width sample2x1. \<forall>y < height sample2x1.
              pixelAt out x y =
                (if (dilate_spec (width sample2x1) (height sample2x1) ^^ nat 1)
                      (maskAt sample2x1) x y \<and> \<not> maskAt sample2x1 x y
                 then (0, 0, 0, 255) else (0, 0, 0, 0)) \<and>
              (alphaAt sample2x1 x y > 10 \<longrightarrow> pixelAt out x y \<noteq> (0, 0, 0, 255))"
    by auto
  have dims: "width sample2x1 = 2" "height sample2x1 = 1" by (simp_all add: sample2x1_def)
  have "pixelAt out 0 0 = (0, 0, 0, 0)"
    using px [rule_format, of 0 0] m0 by (simp add: dims)
  moreover have "pixelAt out 1 0 = (0, 0, 0, 255)"
    using px [rule_format, of 1 0] m1 d1 by (simp add: dims)
  ultimately show ?thesis using wf o by simp
qed

section \<open>Palette quantizer: the nearest entry\<close>

lemma findNearest_fold:
  "findNearestInPalette r g b palette =
     (let (bestIdx, bestD) = fold (nearestStep r g b palette) [0..<length palette] (0, None)
      in if bestIdx < length palette then Some (palette ! bestIdx) else None)"
proof -
  have "(\<lambda>i (bestIdx, bestD).
                let (pr, pg, pb) = palette ! i;
                    dr = r - of_nat pr;
                    dg = g - of_nat pg;
                    db = b - of_nat pb;
                    d = 3 / 10 * dr * dr + 59 / 100 * dg * dg + 11 / 100 * db * db
                in if (case bestD of None \<Rightarrow> True | Some bd \<Rightarrow> d < bd)
                   then (i, Some d) else (bestIdx, bestD)) = nearestStep r g b palette"
  proof (intro ext)
    fix i and st :: "nat \<times> rat option"
    obtain bi bd where st: "st = (bi, bd)" by (cases st)
    obtain pr pg pb where p: "palette ! i = (pr, pg, pb)" by (cases "palette ! i")
    show "(case st of (bestIdx, bestD) \<Rightarrow>
                let (pr, pg, pb) = palette ! i;
                    dr = r - of_nat pr;
                    dg = g - of_nat pg;
                    db = b - of_nat pb;
                    d = 3 / 10 * dr * dr + 59 / 100 * dg * dg + 11 / 100 * db * db
                in if (case bestD of None \<Rightarrow> True | Some bd \<Rightarrow> d < bd)
                   then (i, Some d) else (bestIdx, bestD)) = nearestStep r g b palette i st"
      unfolding st p nearestStep_def weightedDist_def Let_def prod.case snd_conv by (rule refl)
  qed
  then show ?thesis unfolding findNearestInPalette_def by (rule arg_cong)
qed

lemma nearest_fold_invariant:
  assumes "fold (nearestStep r g b palette) [0..<n] (0, None) = (bi, bd)" and "0 < n"
  shows "bi < n \<and> bd = Some (weightedDist r g b (palette ! bi)) \<and>
         (\<forall>i < n. weightedDist r g b (palette ! bi) \<le> weightedDist r g b (palette ! i)) \<and>
         (\<forall>i < bi. weightedDist r g b (palette ! bi) < weightedDist r g b (palette ! i))"
  using assms
proof (induction n arbitrary: bi bd)
  case 0
  then show ?case by simp
next
  case (Suc n)
  let ?D = "\<lambda>i. weightedDist r g b (palette ! i)"
  obtain bi' bd' where prev: "fold (nearestStep r g b palette) [0..<n] (0, None) = (bi', bd')"
    by (cases "fold (nearestStep r g b palette) [0..<n] (0, None)")
  have step: "nearestStep r g b palette n (bi', bd') = (bi, bd)"
    using Suc.prems(1) prev by simp
  show ?case
  proof (cases "n = 0")
    case True
    then have "bi' = 0" "bd' = None" using prev by simp_all
    then have "nearestStep r g b palette n (bi', bd') = (0, Some (?D 0))"
      using True by (simp add: nearestStep_def)
    then have "bi = 0" "bd = Some (?D 0)" using step by simp_all
    then show ?thesis using True by simp
  next
    case False
    then have IH: "bi' < n" "bd' = Some (?D bi')" "\<forall>i < n. ?D bi' \<le> ?D i" "\<forall>i < bi'. ?D bi' < ?D i"
      using Suc.IH [OF prev] by simp_all
    show ?thesis
    proof (cases "?D n < ?D bi'")
      case True
      then have "nearestStep r g b palette n (bi', bd') = (n, Some (?D n))"
        using IH(2) by (simp add: nearestStep_def)
      then have r: "bi = n" "bd = Some (?D n)" using step by simp_all
      have "\<forall>i < Suc n. ?D n \<le> ?D i"
        using True IH(3) by (auto simp: less_Suc_eq intro: order_trans less_imp_le)
      moreover have "\<forall>i < n. ?D n < ?D i"
        using True IH(3) by (auto intro: less_le_trans)
      ultimately show ?thesis using r by simp
    next
      case False
      then have "nearestStep r g b palette n (bi', bd') = (bi', bd')"
        using IH(2) by (simp add: nearestStep_def)
      then have r: "bi = bi'" "bd = bd'" using step by simp_all
      have "\<forall>i < Suc n. ?D bi' \<le> ?D i"
        using False IH(3) by (auto simp: less_Suc_eq)
      then show ?thesis using r IH by simp
    qed
  qed
qed

lemma findNearest_Some:
  assumes "palette \<noteq> []"
  shows "\<exists>k < length palette. findNearestInPalette r g b palette = Some (palette ! k) \<and>
           (\<forall>i < length palette. weightedDist r g b (palette ! k) \<le> weightedDist r g b (palette ! i)) \<and>
           (\<forall>i < k. weightedDist r g b (palette ! k) < weightedDist r g b (palette ! i))"
proof -
  obtain bi bd where f: "fold (nearestStep r g b palette) [0..<length palette] (0, None) = (bi, bd)"
    by (cases "fold (nearestStep r g b palette) [0..<length palette] (0, None)")
  have n: "0 < length palette" using assms by simp
  from nearest_fold_invariant [OF f n]
  show ?thesis by (intro exI [of _ bi]) (simp add: findNearest_fold f)
qed

lemma weightedDist_squares:
  "weightedDist r g b (pr, pg, pb) =
     3 / 10 * (r - of_nat pr)\<^sup>2 + 59 / 100 * (g - of_nat pg)\<^sup>2 + 11 / 100 * (b - of_nat pb)\<^sup>2"
  unfolding weightedDist_def power2_eq_square prod.case by (simp only: mult.assoc)

lemma weightedDist_nonneg: "0 \<le> weightedDist r g b p"
proof -
  obtain pr pg pb where p: "p = (pr, pg, pb)" by (cases p)
  show ?thesis unfolding p weightedDist_squares
    by (intro add_nonneg_nonneg mult_nonneg_nonneg zero_le_power2) simp_all
qed

lemma weightedDist_zero:
  assumes "weightedDist (of_nat r) (of_nat g) (of_nat b) (pr, pg, pb) = 0"
  shows "pr = r \<and> pg = g \<and> pb = b"
proof -
  let ?x = "(of_nat r - of_nat pr :: rat)" and ?y = "(of_nat g - of_nat pg :: rat)"
    and ?z = "(of_nat b - of_nat pb :: rat)"
  have s: "3 / 10 * ?x\<^sup>2 + 59 / 100 * ?y\<^sup>2 + 11 / 100 * ?z\<^sup>2 = 0"
    using assms unfolding weightedDist_squares .
  have nn: "0 \<le> ?x\<^sup>2" "0 \<le> ?y\<^sup>2" "0 \<le> ?z\<^sup>2" by simp_all
  have "?x\<^sup>2 = 0 \<and> ?y\<^sup>2 = 0 \<and> ?z\<^sup>2 = 0"
    using s nn by linarith
  then have "(of_nat r :: rat) = of_nat pr \<and> (of_nat g :: rat) = of_nat pg \<and> (of_nat b :: rat) = of_nat pb"
    by simp
  then show ?thesis by (simp only: of_nat_eq_iff)
qed

lemma findNearest_exact:
  assumes "(r, g, b) \<in> set palette"
  shows "findNearestInPalette (of_nat r) (of_nat g) (of_nat b) palette = Some (r, g, b)"
proof -
  let ?D = "weightedDist (of_nat r) (of_nat g) (of_nat b)"
  from assms obtain j where j: "j < length palette" "palette ! j = (r, g, b)"
    by (auto simp: in_set_conv_nth)
  have ne: "palette \<noteq> []" using assms by auto
  from findNearest_Some [OF ne, of "of_nat r" "of_nat g" "of_nat b"]
  obtain k where k: "k < length palette"
    "findNearestInPalette (of_nat r) (of_nat g) (of_nat b) palette = Some (palette ! k)"
    "\<forall>i < length palette. ?D (palette ! k) \<le> ?D (palette ! i)"
    by blast
  have "?D (palette ! j) = 0" unfolding j(2) weightedDist_squares by simp
  then have "?D (palette ! k) \<le> 0" using k(3) j(1) by metis
  then have z: "?D (palette ! k) = 0" using weightedDist_nonneg [of "of_nat r" "of_nat g" "of_nat b" "palette ! k"] by (rule antisym)
  obtain pr pg pb where p: "palette ! k = (pr, pg, pb)" by (cases "palette ! k")
  have "pr = r \<and> pg = g \<and> pb = b" using z unfolding p by (rule weightedDist_zero)
  then show ?thesis using k(2) p by simp
qed

section \<open>Palette quantizer: the pixel loop\<close>

lemma quantizePixel_eq:
  "quantizePixel src palette ditherAmp y x od =
     (case quantColour src palette ditherAmp y x of
        None \<Rightarrow> Inl TypeError
      | Some c \<Rightarrow> Inr (writePixel od (y * width src + x) c))"
  unfolding quantizePixel_def quantColour_def ditherChannels_def writePixel_def alphaAt_def Let_def
  by (simp split: option.splits prod.splits del: add_mult_distrib add_mult_distrib2)

lemma writePixel_frame: "i div 4 \<noteq> n \<Longrightarrow> writePixel od n c ! i = od ! i"
  by (cases c) (auto simp: writePixel_def nth_update_if)

lemma writePixel_length: "length (writePixel od n c) = length od"
  by (cases c) (simp add: writePixel_def)

lemma writePixel_local:
  "length s = length s' \<Longrightarrow> (\<forall>i'. i' div 4 = n \<longrightarrow> s ! i' = s' ! i') \<Longrightarrow> i div 4 = n \<Longrightarrow>
   writePixel s n c ! i = writePixel s' n c ! i"
  by (cases c) (simp add: writePixel_def nth_update_if)

lemma writePixel_read:
  assumes "n * 4 + 3 < length od"
  shows "(writePixel od n c ! (n * 4), writePixel od n c ! (n * 4 + 1),
          writePixel od n c ! (n * 4 + 2), writePixel od n c ! (n * 4 + 3)) = c"
  using assms by (cases c) (simp add: writePixel_def nth_update_if)

lemma pixelAt_readPx: "pixelAt im x y = readPx (data im) (y * width im + x)"
  by (simp add: pixelAt_def readPx_def Let_def)

lemma readPx_cong:
  assumes "\<forall>i'. i' div 4 = n \<longrightarrow> s ! i' = s' ! i'"
  shows "readPx s n = readPx s' n"
proof -
  have "(n * 4 + k) div 4 = n" if "k < 4" for k using that by simp
  then have "s ! (n * 4 + k) = s' ! (n * 4 + k)" if "k < 4" for k using assms that by blast
  from this [of 0] this [of 1] this [of 2] this [of 3]
  show ?thesis by (simp add: readPx_def)
qed

lemma readPx_writePixel: "n * 4 + 3 < length od \<Longrightarrow> readPx (writePixel od n c) n = c"
  unfolding readPx_def by (rule writePixel_read)

lemma forYX_pixels:
  fixes c :: "nat \<Rightarrow> nat \<Rightarrow> rgba \<Rightarrow> rgba"
  assumes x: "x < w" and y: "y < h" and len: "length s = w * h * 4"
  shows "readPx (forYX h w (\<lambda>y x od. writePixel od (y * w + x) (c y x (readPx od (y * w + x)))) s)
           (y * w + x) = c y x (readPx s (y * w + x))"
proof -
  let ?body = "\<lambda>y x od. writePixel od (y * w + x) (c y x (readPx od (y * w + x)))"
  let ?n = "y * w + x"
  have nth: "forYX h w ?body s ! i = ?body y x s ! i" if i: "i div 4 = ?n" for i
  proof (rule forYX_nth [where key = "\<lambda>i. i div 4"])
    show "y < h" "x < w" "i div 4 = y * w + x" using x y i by simp_all
  next
    fix y x i and s s' :: "nat list"
    assume a: "length s = length s'" "\<forall>i'. i' div 4 = y * w + x \<longrightarrow> s ! i' = s' ! i'"
      "i div 4 = y * w + x"
    have "readPx s (y * w + x) = readPx s' (y * w + x)" using a(2) by (rule readPx_cong)
    then show "?body y x s ! i = ?body y x s' ! i"
      using writePixel_local [OF a] by simp
  qed (simp_all add: writePixel_frame writePixel_length)
  have "\<forall>i'. i' div 4 = ?n \<longrightarrow> forYX h w ?body s ! i' = ?body y x s ! i'"
    using nth by blast
  then have "readPx (forYX h w ?body s) ?n = readPx (?body y x s) ?n"
    by (rule readPx_cong)
  also have "\<dots> = c y x (readPx s ?n)"
    using pixel_index_bound [OF x y] len by (intro readPx_writePixel) simp
  finally show ?thesis .
qed

lemma forYX_pixels_length:
  "length (forYX h w (\<lambda>y x od. writePixel od (y * w + x) (c y x od)) s) = length s"
  by (rule forYX_length) (simp add: writePixel_length)

lemma PALETTES_wf: "wf_palette (PALETTES name)"
  by (cases name) (simp_all add: wf_palette_def)

lemma wf_palette_nth:
  assumes "wf_palette palette" "k < length palette" "palette ! k = (qr, qg, qb)"
  shows "toUint8Clamped qr = qr \<and> toUint8Clamped qg = qg \<and> toUint8Clamped qb = qb"
proof -
  have "(qr, qg, qb) \<in> set palette" using assms(2,3) by (metis nth_mem)
  then have "qr \<le> 255 \<and> qg \<le> 255 \<and> qb \<le> 255"
    using assms(1) by (auto simp: wf_palette_def list_all_iff)
  then show ?thesis by (simp add: toUint8Clamped_def)
qed

lemma quantColour_transparent: "alphaAt src x y < 5 \<Longrightarrow> quantColour src palette da y x = Some (0, 0, 0, 0)"
  by (simp add: quantColour_def)

lemma quantColour_opaque:
  assumes "wf_palette palette" "\<not> alphaAt src x y < 5"
  shows "\<exists>qr qg qb. (qr, qg, qb) \<in> set palette \<and>
           quantColour src palette da y x = Some (qr, qg, qb, 255)"
proof -
  obtain r' g' b' where d: "ditherChannels da y x
               (of_nat (data src ! ((y * width src + x) * 4)))
               (of_nat (data src ! ((y * width src + x) * 4 + 1)))
               (of_nat (data src ! ((y * width src + x) * 4 + 2))) = (r', g', b')"
    by (metis prod_cases3)
  have ne: "palette \<noteq> []" using assms(1) by (simp add: wf_palette_def)
  from findNearest_Some [OF ne, of r' g' b']
  obtain k where k: "k < length palette" "findNearestInPalette r' g' b' palette = Some (palette ! k)"
    by blast
  obtain qr qg qb where q: "palette ! k = (qr, qg, qb)" by (metis prod_cases3)
  have "quantColour src palette da y x = Some (qr, qg, qb, 255)"
    using assms(2) wf_palette_nth [OF assms(1) k(1) q]
    unfolding quantColour_def d by (simp add: k(2) q)
  moreover have "(qr, qg, qb) \<in> set palette" using k(1) q by (metis nth_mem)
  ultimately show ?thesis by blast
qed

lemma quantColour_Some: "wf_palette palette \<Longrightarrow> \<exists>c. quantColour src palette da y x = Some c"
  using quantColour_transparent [of src x y palette da] quantColour_opaque [of palette src x y da]
  by (cases "alphaAt src x y < 5") auto

lemma quantize_result:
  assumes "0 < width src" "0 < height src" "wf_palette palette"
  shows "quantizeImageToPalette src palette ds =
     Inr \<lparr>width = width src, height = height src,
          data = forYX (height src) (width src)
            (\<lambda>y x od. writePixel od (y * width src + x)
               (the (quantColour src palette (max 0 (min 1 ds) * 32) y x)))
            (replicate (width src * height src * 4) 0)\<rparr>"
proof -
  let ?da = "max 0 (min 1 ds) * 32"
  have "forYX_err (height src) (width src) (quantizePixel src palette ?da) s =
      Inr (forYX (height src) (width src)
            (\<lambda>y x od. writePixel od (y * width src + x) (the (quantColour src palette ?da y x))) s)"
    for s
  proof (rule forYX_err_pure)
    fix y x s
    obtain c where "quantColour src palette ?da y x = Some c"
      using quantColour_Some [OF assms(3)] by blast
    then show "quantizePixel src palette ?da y x s =
        Inr (writePixel s (y * width src + x) (the (quantColour src palette ?da y x)))"
      by (simp add: quantizePixel_eq)
  qed
  then show ?thesis
    using assms(1,2) by (simp add: quantizeImageToPalette_def newImageData_def Let_def)
qed

lemma quantize_pixelAt:
  assumes "x < w" "y < h"
  shows "pixelAt \<lparr>width = w, height = h,
          data = forYX h w (\<lambda>y x od. writePixel od (y * w + x) (c y x))
            (replicate (w * h * 4) 0)\<rparr> x y = c y x"
  using forYX_pixels [OF assms, of "replicate (w * h * 4) 0" "\<lambda>y x p. c y x"]
  by (simp add: pixelAt_readPx)

text \<open>
  Claim C1. For every well-formed input buffer, every palette of 8-bit triples (the five
  supported palettes are such, \<open>PALETTES_wf\<close>) and every dither strength,
  \<^verbatim>\<open>quantizeImageToPalette\<close> returns a buffer of the same size in which every pixel whose input
  alpha is at least \<open>5\<close> carries an RGB triple of the palette with alpha \<open>255\<close>, and every
  pixel whose input alpha is below \<open>5\<close> is \<open>(0, 0, 0, 0)\<close>.
\<close>

theorem quantize_into_palette:
  assumes wf: "wf_ImageData src" and pal: "wf_palette palette"
  shows "\<exists>out. quantizeImageToPalette src palette ditherStrength01 = Inr out \<and>
           width out = width src \<and> height out = height src \<and>
           (\<forall>x < width src. \<forall>y < height src.
              (5 \<le> alphaAt src x y \<longrightarrow>
                 (\<exists>(qr, qg, qb) \<in> set palette. pixelAt out x y = (qr, qg, qb, 255))) \<and>
              (alphaAt src x y < 5 \<longrightarrow> pixelAt out x y = (0, 0, 0, 0)))"
proof -
  let ?da = "max 0 (min 1 ditherStrength01) * 32"
  have pos: "0 < width src" "0 < height src" using wf by (simp_all add: wf_ImageData_def)
  have "\<exists>(qr, qg, qb) \<in> set palette. the (quantColour src palette ?da y x) = (qr, qg, qb, 255)"
    if "5 \<le> alphaAt src x y" for x y
    using quantColour_opaque [OF pal, of src x y ?da] that by force
  moreover have "the (quantColour src palette ?da y x) = (0, 0, 0, 0)"
    if "alphaAt src x y < 5" for x y
    using that by (simp add: quantColour_transparent)
  ultimately show ?thesis
    by (simp add: quantize_result [OF pos pal] quantize_pixelAt)
qed

theorem quantize_into_palette_witness:
  "wf_ImageData sample2x1 \<and> wf_palette (PALETTES pico8) \<and>
   (\<exists>out. quantizeImageToPalette sample2x1 (PALETTES pico8) (1 / 5) = Inr out \<and>
      (\<exists>(qr, qg, qb) \<in> set (PALETTES pico8). pixelAt out 0 0 = (qr, qg, qb, 255)) \<and>
      pixelAt out 1 0 = (0, 0, 0, 0))"
proof -
  have wf: "wf_ImageData sample2x1"
    by (simp add: wf_ImageData_def sample2x1_def)
  have a: "5 \<le> alphaAt sample2x1 0 0" "alphaAt sample2x1 1 0 < 5"
    by (simp_all add: alphaAt_def sample2x1_def)
  have dims: "0 < width sample2x1" "1 < width sample2x1" "0 < height sample2x1"
    by (simp_all add: sample2x1_def)
  from quantize_into_palette [OF wf PALETTES_wf, of pico8 "1 / 5"]
  obtain out where o: "quantizeImageToPalette sample2x1 (PALETTES pico8) (1 / 5) = Inr out"
    and px: "\<forall>x < width sample2x1. \<forall>y < height sample2x1.
              (5 \<le> alphaAt sample2x1 x y \<longrightarrow>
                 (\<exists>(qr, qg, qb) \<in> set (PALETTES pico8). pixelAt out x y = (qr, qg, qb, 255))) \<and>
              (alphaAt sample2x1 x y < 5 \<longrightarrow> pixelAt out x y = (0, 0, 0, 0))"
    by blast
  have "\<exists>(qr, qg, qb) \<in> set (PALETTES pico8). pixelAt out 0 0 = (qr, qg, qb, 255)"
    using px dims(1,3) a(1) by blast
  moreover have "pixelAt out 1 0 = (0, 0, 0, 0)"
    using px dims(2,3) a(2) by blast
  ultimately show ?thesis using wf o PALETTES_wf [of pico8] by blast
qed

lemma data_eqI:
  assumes l1: "length d1 = w * h * 4" and l2: "length d2 = w * h * 4"
    and px: "\<And>x y. x < w \<Longrightarrow> y < h \<Longrightarrow> readPx d1 (y * w + x) = readPx d2 (y * w + x)"
  shows "d1 = d2"
proof (rule nth_equalityI)
  show "length d1 = length d2" using l1 l2 by simp
next
  fix i assume "i < length d1"
  then have i: "i < w * h * 4" using l1 by simp
  define n where "n = i div 4"
  define k where "k = i mod 4"
  have ik: "i = n * 4 + k" "k < 4" by (simp_all add: n_def k_def)
  have n: "n < h * w" using i by (simp add: n_def mult.commute)
  then have w: "0 < w" by (cases w) simp_all
  have y: "n div w < h" using n by (rule less_mult_imp_div_less)
  have x: "n mod w < w" using w by simp
  have "readPx d1 n = readPx d2 n"
    using px [OF x y] by (simp add: div_mult_mod_eq)
  then have r: "d1 ! (n * 4) = d2 ! (n * 4)" "d1 ! (n * 4 + 1) = d2 ! (n * 4 + 1)"
    "d1 ! (n * 4 + 2) = d2 ! (n * 4 + 2)" "d1 ! (n * 4 + 3) = d2 ! (n * 4 + 3)"
    by (simp_all add: readPx_def)
  consider "k = 0" | "k = 1" | "k = 2" | "k = 3" using ik(2) by linarith
  then have "d1 ! (n * 4 + k) = d2 ! (n * 4 + k)"
    using r by cases simp_all
  then show "d1 ! i = d2 ! i" by (simp only: ik(1))
qed

lemma ditherChannels_off: "ditherChannels 0 y x r g b = (r, g, b)"
  by (simp add: ditherChannels_def)

lemma quantColour_of_pixel:
  assumes "pixelAt src x y = (r, g, b, a)"
  shows "quantColour src palette 0 y x =
     (if a < 5 then Some (0, 0, 0, 0)
      else case findNearestInPalette (of_nat r) (of_nat g) (of_nat b) palette of
             None \<Rightarrow> None
           | Some (qr, qg, qb) \<Rightarrow>
               Some (toUint8Clamped qr, toUint8Clamped qg, toUint8Clamped qb, 255))"
proof -
  have "data src ! ((y * width src + x) * 4) = r" "data src ! ((y * width src + x) * 4 + 1) = g"
    "data src ! ((y * width src + x) * 4 + 2) = b" "alphaAt src x y = a"
    using assms unfolding pixelAt_def alphaAt_def Let_def by simp_all
  then show ?thesis
    unfolding quantColour_def by (simp only: ditherChannels_off prod.case)
qed

lemma quantColour_fixed:
  assumes pal: "wf_palette palette"
    and c: "c = (0, 0, 0, 0) \<or> (\<exists>qr qg qb. (qr, qg, qb) \<in> set palette \<and> c = (qr, qg, qb, 255))"
    and px: "pixelAt im x y = c"
  shows "quantColour im palette 0 y x = Some c"
  using c
proof
  assume "c = (0, 0, 0, 0)"
  then show ?thesis using quantColour_of_pixel [of im x y 0 0 0 0 palette] px by simp
next
  assume "\<exists>qr qg qb. (qr, qg, qb) \<in> set palette \<and> c = (qr, qg, qb, 255)"
  then obtain qr qg qb where q: "(qr, qg, qb) \<in> set palette" "c = (qr, qg, qb, 255)" by blast
  have "qr \<le> 255 \<and> qg \<le> 255 \<and> qb \<le> 255"
    using pal q(1) by (auto simp: wf_palette_def list_all_iff)
  then show ?thesis
    using quantColour_of_pixel [of im x y qr qg qb 255 palette] px q(2)
    by (simp add: findNearest_exact [OF q(1)] toUint8Clamped_def)
qed

text \<open>
  Claim C2. With dither strength \<open>0\<close> quantization is idempotent: for every well-formed buffer
  and every palette of 8-bit triples, quantizing the quantized buffer again with the same
  palette returns exactly the same buffer. A pixel that equals a palette entry is at distance
  \<open>0\<close> from it, and the search returns the first entry of least distance
  (\<open>findNearest_Some\<close>), which is then that colour.
\<close>

theorem quantize_idempotent:
  assumes wf: "wf_ImageData src" and pal: "wf_palette palette"
  shows "\<exists>out. quantizeImageToPalette src palette 0 = Inr out \<and>
           quantizeImageToPalette out palette 0 = Inr out"
proof -
  let ?w = "width src" and ?h = "height src"
  let ?run = "\<lambda>im. forYX ?h ?w
            (\<lambda>y x od. writePixel od (y * ?w + x) (the (quantColour im palette 0 y x)))
            (replicate (?w * ?h * 4) 0)"
  let ?out = "\<lparr>width = ?w, height = ?h, data = ?run src\<rparr>"
  have pos: "0 < ?w" "0 < ?h" using wf by (simp_all add: wf_ImageData_def)
  have z: "max 0 (min 1 (0::rat)) * 32 = 0" by simp
  have first: "quantizeImageToPalette src palette 0 = Inr ?out"
    using quantize_result [OF pos pal, of 0] by (simp only: z)
  have second: "quantizeImageToPalette ?out palette 0 = Inr \<lparr>width = ?w, height = ?h, data = ?run ?out\<rparr>"
    using quantize_result [of ?out palette 0] pos pal by (simp only: z) simp
  have px1: "pixelAt ?out x y = the (quantColour src palette 0 y x)" if "x < ?w" "y < ?h" for x y
    using that by (rule quantize_pixelAt)
  have stable: "the (quantColour ?out palette 0 y x) = the (quantColour src palette 0 y x)"
    if xy: "x < ?w" "y < ?h" for x y
  proof -
    let ?c = "the (quantColour src palette 0 y x)"
    have "?c = (0, 0, 0, 0) \<or> (\<exists>qr qg qb. (qr, qg, qb) \<in> set palette \<and> ?c = (qr, qg, qb, 255))"
      using quantColour_transparent [of src x y palette 0] quantColour_opaque [OF pal, of src x y 0]
      by (cases "alphaAt src x y < 5") auto
    then have "quantColour ?out palette 0 y x = Some ?c"
      using px1 [OF xy] by (intro quantColour_fixed [OF pal]) simp_all
    then show ?thesis by simp
  qed
  have "?run ?out = ?run src"
  proof (rule data_eqI [where w = ?w and h = ?h])
    show "length (?run ?out) = ?w * ?h * 4" "length (?run src) = ?w * ?h * 4"
      by (simp_all add: forYX_pixels_length)
  next
    fix x y assume xy: "x < ?w" "y < ?h"
    have "readPx (?run im) (y * ?w + x) = the (quantColour im palette 0 y x)" for im
      using forYX_pixels [OF xy, of "replicate (?w * ?h * 4) 0"
          "\<lambda>y x p. the (quantColour im palette 0 y x)"]
      by simp
    then show "readPx (?run ?out) (y * ?w + x) = readPx (?run src) (y * ?w + x)"
      using stable [OF xy] by simp
  qed
  then show ?thesis using first second by simp
qed

theorem quantize_idempotent_witness:
  "wf_ImageData sample2x1 \<and> wf_palette (PALETTES pico8) \<and>
   (\<exists>out. quantizeImageToPalette sample2x1 (PALETTES pico8) 0 = Inr out \<and>
      quantizeImageToPalette out (PALETTES pico8) 0 = Inr out)"
proof -
  have wf: "wf_ImageData sample2x1"
    by (simp add: wf_ImageData_def sample2x1_def)
  show ?thesis
    using wf PALETTES_wf [of pico8] quantize_idempotent [OF wf PALETTES_wf, of pico8]
    by blast
qed

section \<open>Subject cropper: the bounding box\<close>

lemma boundsPixel_simp:
  "boundsPixel img thr y x (a, b, c, d) =
     (if qualifies img thr (y, x)
      then (min (int x) a, min (int y) b, max (int x) c, max (int y) d)
      else (a, b, c, d))"
  by (simp add: boundsPixel_def qualifies_def alphaAt_def Let_def min_def max_def)

lemma bounds_fold:
  assumes "fold (\<lambda>(y, x). boundsPixel img thr y x) ps (a, b, c, d) = (a', b', c', d')"
  shows "(\<forall>(y, x) \<in> set ps. qualifies img thr (y, x) \<longrightarrow>
            a' \<le> int x \<and> int x \<le> c' \<and> b' \<le> int y \<and> int y \<le> d') \<and>
         (a' = a \<or> (\<exists>(y, x) \<in> set ps. qualifies img thr (y, x) \<and> a' = int x)) \<and>
         (b' = b \<or> (\<exists>(y, x) \<in> set ps. qualifies img thr (y, x) \<and> b' = int y)) \<and>
         (c' = c \<or> (\<exists>(y, x) \<in> set ps. qualifies img thr (y, x) \<and> c' = int x)) \<and>
         (d' = d \<or> (\<exists>(y, x) \<in> set ps. qualifies img thr (y, x) \<and> d' = int y)) \<and>
         a' \<le> a \<and> b' \<le> b \<and> c \<le> c' \<and> d \<le> d'"
  using assms
proof (induction ps arbitrary: a b c d)
  case Nil
  then show ?case by simp
next
  case (Cons p ps)
  obtain y x where p: "p = (y, x)" by (cases p)
  show ?case
  proof (cases "qualifies img thr (y, x)")
    case True
    then have "fold (\<lambda>(y, x). boundsPixel img thr y x) ps
        (min (int x) a, min (int y) b, max (int x) c, max (int y) d) = (a', b', c', d')"
      using Cons.prems by (simp add: p boundsPixel_simp)
    from Cons.IH [OF this] True show ?thesis
      unfolding p by (auto simp: min_def max_def split: if_splits)
  next
    case False
    then have "fold (\<lambda>(y, x). boundsPixel img thr y x) ps (a, b, c, d) = (a', b', c', d')"
      using Cons.prems by (simp add: p boundsPixel_simp)
    from Cons.IH [OF this] False show ?thesis
      unfolding p by auto
  qed
qed

lemma bounds_loop:
  obtains a b c d where
    "forYX (height img) (width img) (boundsPixel img thr)
       (int (width img), int (height img), - 1, - 1) = (a, b, c, d)"
    "\<And>x y. x < width img \<Longrightarrow> y < height img \<Longrightarrow> int (alphaAt img x y) > thr \<Longrightarrow>
       a \<le> int x \<and> int x \<le> c \<and> b \<le> int y \<and> int y \<le> d"
    "a = int (width img) \<or>
       (\<exists>x < width img. \<exists>y < height img. int (alphaAt img x y) > thr \<and> a = int x)"
    "b = int (height img) \<or>
       (\<exists>x < width img. \<exists>y < height img. int (alphaAt img x y) > thr \<and> b = int y)"
    "c = - 1 \<or> (\<exists>x < width img. \<exists>y < height img. int (alphaAt img x y) > thr \<and> c = int x)"
    "d = - 1 \<or> (\<exists>x < width img. \<exists>y < height img. int (alphaAt img x y) > thr \<and> d = int y)"
proof -
  let ?ps = "List.product [0..<height img] [0..<width img]"
  obtain a b c d where f: "fold (\<lambda>(y, x). boundsPixel img thr y x) ?ps
      (int (width img), int (height img), - 1, - 1) = (a, b, c, d)"
    by (metis prod_cases4)
  note inv = bounds_fold [OF f]
  have mem: "(y, x) \<in> set ?ps \<longleftrightarrow> x < width img \<and> y < height img" for x y by auto
  have q: "qualifies img thr (y, x) \<longleftrightarrow> int (alphaAt img x y) > thr" for x y
    by (simp add: qualifies_def)
  show thesis
  proof (rule that [of a b c d])
    show "forYX (height img) (width img) (boundsPixel img thr)
       (int (width img), int (height img), - 1, - 1) = (a, b, c, d)"
      using f by (simp add: forYX_product)
  next
    fix x y assume "x < width img" "y < height img" "int (alphaAt img x y) > thr"
    then have "(y, x) \<in> set ?ps" "qualifies img thr (y, x)" by (simp_all add: q)
    then show "a \<le> int x \<and> int x \<le> c \<and> b \<le> int y \<and> int y \<le> d"
      using inv by blast
  next
    show "a = int (width img) \<or>
       (\<exists>x < width img. \<exists>y < height img. int (alphaAt img x y) > thr \<and> a = int x)"
      using inv mem q by fast
    show "b = int (height img) \<or>
       (\<exists>x < width img. \<exists>y < height img. int (alphaAt img x y) > thr \<and> b = int y)"
      using inv mem q by fast
    show "c = - 1 \<or> (\<exists>x < width img. \<exists>y < height img. int (alphaAt img x y) > thr \<and> c = int x)"
      using inv mem q by fast
    show "d = - 1 \<or> (\<exists>x < width img. \<exists>y < height img. int (alphaAt img x y) > thr \<and> d = int y)"
      using inv mem q by fast
  qed
qed

text \<open>
  Claim C4. For every well-formed buffer, \<^verbatim>\<open>getOpaqueBounds\<close> returns no bounds exactly when
  no pixel's alpha exceeds the threshold, so it returns a rectangle whenever some pixel's alpha
  does; and when no alpha exceeds \<open>16\<close>, the threshold of the pipeline, the rectangle
  \<^verbatim>\<open>pixelateImage\<close> then uses is the full extent \<open>{0, 0, width, height}\<close>.
\<close>

theorem getOpaqueBounds_none_iff_empty:
  assumes "wf_ImageData img"
  shows "(getOpaqueBounds img thr = None \<longleftrightarrow>
            (\<forall>x < width img. \<forall>y < height img. int (alphaAt img x y) \<le> thr)) \<and>
         ((\<forall>x < width img. \<forall>y < height img. alphaAt img x y \<le> 16) \<longrightarrow>
            cropBounds img = \<lparr>rect_x = 0, rect_y = 0,
                                rect_w = int (width img), rect_h = int (height img)\<rparr>)"
proof -
  have none_iff: "getOpaqueBounds img t = None \<longleftrightarrow>
      (\<forall>x < width img. \<forall>y < height img. int (alphaAt img x y) \<le> t)" for t
  proof -
    obtain a b c d where
      run: "forYX (height img) (width img) (boundsPixel img t)
         (int (width img), int (height img), - 1, - 1) = (a, b, c, d)"
      and inside: "\<And>x y. x < width img \<Longrightarrow> y < height img \<Longrightarrow> int (alphaAt img x y) > t \<Longrightarrow>
         a \<le> int x \<and> int x \<le> c \<and> b \<le> int y \<and> int y \<le> d"
      and a: "a = int (width img) \<or>
         (\<exists>x < width img. \<exists>y < height img. int (alphaAt img x y) > t \<and> a = int x)"
      and c: "c = - 1 \<or> (\<exists>x < width img. \<exists>y < height img. int (alphaAt img x y) > t \<and> c = int x)"
      by (rule bounds_loop [of img t]) blast
    have res: "getOpaqueBounds img t = None \<longleftrightarrow> c < a \<or> d < b"
      by (simp add: getOpaqueBounds_def run)
    show ?thesis
    proof
      assume "getOpaqueBounds img t = None"
      then have lt: "c < a \<or> d < b" using res by simp
      show "\<forall>x < width img. \<forall>y < height img. int (alphaAt img x y) \<le> t"
      proof (intro allI impI)
        fix x y assume xy: "x < width img" "y < height img"
        show "int (alphaAt img x y) \<le> t"
        proof (rule ccontr)
          assume "\<not> int (alphaAt img x y) \<le> t"
          then have "a \<le> int x \<and> int x \<le> c \<and> b \<le> int y \<and> int y \<le> d"
            using inside [OF xy] by simp
          then show False using lt by linarith
        qed
      qed
    next
      assume none: "\<forall>x < width img. \<forall>y < height img. int (alphaAt img x y) \<le> t"
      have "a = int (width img)" using a none by (metis not_less)
      moreover have "c = - 1" using c none by (metis not_less)
      ultimately show "getOpaqueBounds img t = None" using res by simp
    qed
  qed
  have "cropBounds img = \<lparr>rect_x = 0, rect_y = 0,
                                rect_w = int (width img), rect_h = int (height img)\<rparr>"
    if "\<forall>x < width img. \<forall>y < height img. alphaAt img x y \<le> 16"
  proof -
    have "getOpaqueBounds img 16 = None" using that by (simp add: none_iff)
    then show ?thesis by (simp add: cropBounds_def)
  qed
  then show ?thesis using none_iff by blast
qed

theorem getOpaqueBounds_none_witness:
  "wf_ImageData clear2x1 \<and> wf_ImageData sample2x1 \<and>
   getOpaqueBounds clear2x1 16 = None \<and>
   cropBounds clear2x1 = \<lparr>rect_x = 0, rect_y = 0, rect_w = 2, rect_h = 1\<rparr> \<and>
   getOpaqueBounds sample2x1 16 \<noteq> None"
proof -
  have wf: "wf_ImageData clear2x1" "wf_ImageData sample2x1"
    by (simp_all add: wf_ImageData_def clear2x1_def sample2x1_def)
  have a: "alphaAt clear2x1 0 0 = 0" "alphaAt clear2x1 1 0 = 16" "alphaAt sample2x1 0 0 = 255"
    by (simp_all add: alphaAt_def clear2x1_def sample2x1_def)
  have dims: "width clear2x1 = 2" "height clear2x1 = 1" "width sample2x1 = 2" "height sample2x1 = 1"
    by (simp_all add: clear2x1_def sample2x1_def)
  have empty: "\<forall>x < width clear2x1. \<forall>y < height clear2x1. alphaAt clear2x1 x y \<le> 16"
    using a by (simp add: dims less_Suc_eq numeral_2_eq_2)
  then have empty': "\<forall>x < width clear2x1. \<forall>y < height clear2x1. int (alphaAt clear2x1 x y) \<le> 16"
    by auto
  have some: "\<not> (\<forall>x < width sample2x1. \<forall>y < height sample2x1. int (alphaAt sample2x1 x y) \<le> 16)"
    using a(3) by (auto simp: dims intro!: exI [of _ 0])
  note c4 = getOpaqueBounds_none_iff_empty [OF wf(1), of 16]
  note c4' = getOpaqueBounds_none_iff_empty [OF wf(2), of 16]
  have "getOpaqueBounds clear2x1 16 = None" using c4 empty' by blast
  moreover have "cropBounds clear2x1 = \<lparr>rect_x = 0, rect_y = 0, rect_w = 2, rect_h = 1\<rparr>"
    using c4 empty by (simp add: dims)
  moreover have "getOpaqueBounds sample2x1 16 \<noteq> None" using c4' some by blast
  ultimately show ?thesis using wf by blast
qed

text \<open>
  Claim C9. Every rectangle \<^verbatim>\<open>getOpaqueBounds\<close> returns on a well-formed buffer lies inside
  the buffer (\<open>x \<ge> 0\<close>, \<open>y \<ge> 0\<close>, \<open>x + w \<le> width\<close>, \<open>y + h \<le> height\<close>, \<open>w \<ge> 1\<close>,
  \<open>h \<ge> 1\<close>), contains every pixel whose alpha exceeds the threshold, and is tight: its first
  and last column and its first and last row each hold such a pixel, so \<open>w = maxX - minX + 1\<close>
  and \<open>h = maxY - minY + 1\<close> for the extreme coordinates of those pixels.
\<close>

theorem getOpaqueBounds_rect_invariant:
  assumes wf: "wf_ImageData img" and r: "getOpaqueBounds img thr = Some r"
  shows "0 \<le> rect_x r \<and> 0 \<le> rect_y r \<and>
         rect_x r + rect_w r \<le> int (width img) \<and> rect_y r + rect_h r \<le> int (height img) \<and>
         1 \<le> rect_w r \<and> 1 \<le> rect_h r \<and>
         (\<forall>x < width img. \<forall>y < height img. int (alphaAt img x y) > thr \<longrightarrow>
            rect_x r \<le> int x \<and> int x < rect_x r + rect_w r \<and>
            rect_y r \<le> int y \<and> int y < rect_y r + rect_h r) \<and>
         (\<exists>x < width img. \<exists>y < height img. int (alphaAt img x y) > thr \<and> int x = rect_x r) \<and>
         (\<exists>x < width img. \<exists>y < height img.
            int (alphaAt img x y) > thr \<and> int x = rect_x r + rect_w r - 1) \<and>
         (\<exists>x < width img. \<exists>y < height img. int (alphaAt img x y) > thr \<and> int y = rect_y r) \<and>
         (\<exists>x < width img. \<exists>y < height img.
            int (alphaAt img x y) > thr \<and> int y = rect_y r + rect_h r - 1)"
proof -
  obtain a b c d where
    run: "forYX (height img) (width img) (boundsPixel img thr)
       (int (width img), int (height img), - 1, - 1) = (a, b, c, d)"
    and inside: "\<And>x y. x < width img \<Longrightarrow> y < height img \<Longrightarrow> int (alphaAt img x y) > thr \<Longrightarrow>
       a \<le> int x \<and> int x \<le> c \<and> b \<le> int y \<and> int y \<le> d"
    and a: "a = int (width img) \<or>
       (\<exists>x < width img. \<exists>y < height img. int (alphaAt img x y) > thr \<and> a = int x)"
    and b: "b = int (height img) \<or>
       (\<exists>x < width img. \<exists>y < height img. int (alphaAt img x y) > thr \<and> b = int y)"
    and c: "c = - 1 \<or> (\<exists>x < width img. \<exists>y < height img. int (alphaAt img x y) > thr \<and> c = int x)"
    and d: "d = - 1 \<or> (\<exists>x < width img. \<exists>y < height img. int (alphaAt img x y) > thr \<and> d = int y)"
    by (rule bounds_loop [of img thr]) blast
  have ok: "a \<le> c" "b \<le> d"
    and rect: "r = \<lparr>rect_x = a, rect_y = b, rect_w = c - a + 1, rect_h = d - b + 1\<rparr>"
    using r by (auto simp: getOpaqueBounds_def run split: if_splits)
  have c': "\<exists>x < width img. \<exists>y < height img. int (alphaAt img x y) > thr \<and> c = int x"
  proof (rule disjE [OF c])
    assume "c = - 1"
    then have "a < 0" using ok(1) by simp
    then show ?thesis using a by auto
  qed
  have d': "\<exists>x < width img. \<exists>y < height img. int (alphaAt img x y) > thr \<and> d = int y"
  proof (rule disjE [OF d])
    assume "d = - 1"
    then have "b < 0" using ok(2) by simp
    then show ?thesis using b by auto
  qed
  have a': "\<exists>x < width img. \<exists>y < height img. int (alphaAt img x y) > thr \<and> a = int x"
  proof (rule disjE [OF a])
    assume "a = int (width img)"
    then have "int (width img) \<le> c" using ok(1) by simp
    then show ?thesis using c' by auto
  qed
  have b': "\<exists>x < width img. \<exists>y < height img. int (alphaAt img x y) > thr \<and> b = int y"
  proof (rule disjE [OF b])
    assume "b = int (height img)"
    then have "int (height img) \<le> d" using ok(2) by simp
    then show ?thesis using d' by auto
  qed
  have bounds: "0 \<le> a" "0 \<le> b" "c < int (width img)" "d < int (height img)"
    using a' b' c' d' by auto
  have "\<forall>x < width img. \<forall>y < height img. int (alphaAt img x y) > thr \<longrightarrow>
            a \<le> int x \<and> int x < a + (c - a + 1) \<and> b \<le> int y \<and> int y < b + (d - b + 1)"
    using inside by fastforce
  moreover have "\<exists>x < width img. \<exists>y < height img. int (alphaAt img x y) > thr \<and> int x = a"
    using a' by metis
  moreover have "\<exists>x < width img. \<exists>y < height img. int (alphaAt img x y) > thr \<and> int y = b"
    using b' by metis
  moreover have "\<exists>x < width img. \<exists>y < height img.
      int (alphaAt img x y) > thr \<and> int x = a + (c - a + 1) - 1"
    using c' by auto
  moreover have "\<exists>x < width img. \<exists>y < height img.
      int (alphaAt img x y) > thr \<and> int y = b + (d - b + 1) - 1"
    using d' by auto
  ultimately show ?thesis
    using ok bounds unfolding rect by simp
qed

theorem getOpaqueBounds_rect_witness:
  "wf_ImageData sample2x1 \<and>
   getOpaqueBounds sample2x1 16 = Some \<lparr>rect_x = 0, rect_y = 0, rect_w = 1, rect_h = 1\<rparr> \<and>
   (\<exists>x < width sample2x1. \<exists>y < height sample2x1.
      int (alphaAt sample2x1 x y) > 16 \<and> int x = 0)"
proof -
  have wf: "wf_ImageData sample2x1"
    by (simp add: wf_ImageData_def sample2x1_def)
  have r: "getOpaqueBounds sample2x1 16 = Some \<lparr>rect_x = 0, rect_y = 0, rect_w = 1, rect_h = 1\<rparr>"
    by (simp add: getOpaqueBounds_def forYX_def boundsPixel_def sample2x1_def Let_def
        numeral_2_eq_2)
  from getOpaqueBounds_rect_invariant [OF wf r]
  have "\<exists>x < width sample2x1. \<exists>y < height sample2x1.
      int (alphaAt sample2x1 x y) > 16 \<and> int x = 0"
    by simp
  then show ?thesis using wf r by blast
qed

section \<open>Downsampler: the size of the small canvas\<close>

lemma smallSize_ge_8: "8 \<le> smallSize d b"
  by (simp add: smallSize_def)

lemma smallSize_floor: "1 \<le> b \<Longrightarrow> smallSize d b = max 8 \<lfloor>of_int d / b\<rfloor>"
  by (simp add: smallSize_def max_absorb2)

lemma smallSize_div: "1 \<le> n \<Longrightarrow> smallSize d (of_int n) = max 8 (d div n)"
proof -
  assume n: "1 \<le> n"
  have "\<lfloor>(of_int d :: rat) / of_int n\<rfloor> = d div n" by (rule floor_divide_of_int_eq)
  moreover have "max 1 (of_int n :: rat) = of_int n" using n by (simp add: max_absorb2)
  ultimately show ?thesis by (simp add: smallSize_def)
qed

text \<open>
  Claim C6. For every crop of dimensions \<open>cropW \<times> cropH\<close> and every block size, each side of
  the small canvas is at least \<open>8\<close>; for every block size of at least \<open>1\<close> (the range of
  \<open>blockSize\<close> in the configuration) the sides are \<open>max(8, floor(cropW / blockSize))\<close> and
  \<open>max(8, floor(cropH / blockSize))\<close>, which for an integer block size is integer division.
  This includes a block size at or above the crop's dimension.
\<close>

theorem downsample_dims_at_least_8:
  "8 \<le> smallSize cropW blockSize \<and> 8 \<le> smallSize cropH blockSize \<and>
   (1 \<le> blockSize \<longrightarrow>
      smallSize cropW blockSize = max 8 \<lfloor>of_int cropW / blockSize\<rfloor> \<and>
      smallSize cropH blockSize = max 8 \<lfloor>of_int cropH / blockSize\<rfloor>) \<and>
   (1 \<le> n \<longrightarrow>
      smallSize cropW (of_int n) = max 8 (cropW div n) \<and>
      smallSize cropH (of_int n) = max 8 (cropH div n))"
  by (intro conjI impI smallSize_ge_8 smallSize_floor smallSize_div)

theorem downsample_dims_witness:
  "(1::rat) \<le> 8 \<and> (1::int) \<le> 100 \<and>
   smallSize 640 8 = 80 \<and> smallSize 64 8 = 8 \<and> smallSize 5 (of_int 100) = 8 \<and> smallSize 64 (of_int 100) = 8"
proof -
  have "smallSize 640 8 = max 8 \<lfloor>of_int 640 / (8::rat)\<rfloor> \<and> smallSize 64 8 = max 8 \<lfloor>of_int 64 / (8::rat)\<rfloor>"
    using downsample_dims_at_least_8 [of 640 8 64 1] by simp
  moreover have "smallSize 5 (of_int 100) = max 8 (5 div 100) \<and> smallSize 64 (of_int 100) = max 8 (64 div 100)"
    using downsample_dims_at_least_8 [of 5 1 64 100] by simp
  ultimately show ?thesis by simp
qed

section \<open>Normalizer: the limit on the longest side\<close>

lemma floor_numeral_quotient:
  "\<lfloor>(numeral a :: rat) / numeral b\<rfloor> = numeral a div numeral b"
  using floor_divide_of_int_eq [of "numeral a" "numeral b", where ?'a = rat] by simp

lemma jsRound_le:
  assumes "v \<le> of_int L"
  shows "jsRound v \<le> L"
proof -
  have "\<lfloor>v + 1 / 2\<rfloor> \<le> \<lfloor>(of_int L :: rat) + 1 / 2\<rfloor>"
    using assms by (intro floor_mono) simp
  also have "\<dots> = L" by linarith
  finally show ?thesis by (simp add: jsRound_def)
qed

lemma scaled_side_le:
  assumes "a \<le> c" "0 < c" "1 \<le> L"
  shows "max 1 (jsRound (of_nat a * (of_int L / of_nat c))) \<le> L"
proof -
  have "(of_nat a :: rat) * (of_int L / of_nat c) \<le> of_nat c * (of_int L / of_nat c)"
    using assms by (intro mult_right_mono) simp_all
  also have "\<dots> = of_int L" using assms(2) by simp
  finally have "jsRound (of_nat a * (of_int L / of_nat c)) \<le> L" by (rule jsRound_le)
  then show ?thesis using assms(3) by simp
qed

lemma normalize_noop:
  "int (max (width input) (height input)) \<le> L \<Longrightarrow> normalizeImageBlob resample input L = input"
  by (simp add: normalizeImageBlob_def Let_def)

lemma normalize_bound:
  assumes "1 \<le> L"
  shows "int (max (width (normalizeImageBlob resample input L))
                  (height (normalizeImageBlob resample input L))) \<le> L"
proof (cases "int (max (width input) (height input)) \<le> L")
  case True
  then show ?thesis by (simp add: normalize_noop)
next
  case False
  let ?c = "max (width input) (height input)"
  have c: "0 < ?c" using False assms by linarith
  have w: "max 1 (jsRound (of_nat (width input) * (of_int L / of_nat ?c))) \<le> L"
    by (rule scaled_side_le [OF _ c assms]) simp
  have h: "max 1 (jsRound (of_nat (height input) * (of_int L / of_nat ?c))) \<le> L"
    by (rule scaled_side_le [OF _ c assms]) simp
  define tw where "tw = max 1 (jsRound (of_nat (width input) * (of_int L / of_nat ?c)))"
  define th where "th = max 1 (jsRound (of_nat (height input) * (of_int L / of_nat ?c)))"
  have out: "normalizeImageBlob resample input L =
      \<lparr>width = nat tw, height = nat th, data = resample input (nat tw) (nat th)\<rparr>"
    using False unfolding normalizeImageBlob_def Let_def tw_def th_def by simp
  have "int (nat tw) \<le> L" "int (nat th) \<le> L"
    using w h assms unfolding tw_def [symmetric] th_def [symmetric] by linarith+
  then have "int (max (nat tw) (nat th)) \<le> L"
    by (simp add: max_def)
  then show ?thesis by (simp add: out)
qed

text \<open>
  Claim C7 as stated, for every configured limit, fails at the limit \<open>0\<close>: both target sides
  are clamped to at least \<open>1\<close>, so a one-pixel image comes out \<open>1 \<times> 1\<close>.
\<close>

theorem normalize_limit_zero_counterexample:
  "\<not> (\<forall>resample input longestSide. wf_ImageData input \<longrightarrow>
        int (max (width (normalizeImageBlob resample input longestSide))
                 (height (normalizeImageBlob resample input longestSide))) \<le> longestSide)"
proof
  assume a: "\<forall>resample input longestSide. wf_ImageData input \<longrightarrow>
        int (max (width (normalizeImageBlob resample input longestSide))
                 (height (normalizeImageBlob resample input longestSide))) \<le> longestSide"
  have "wf_ImageData onePixel" by (simp add: wf_ImageData_def onePixel_def)
  then have "int (max (width (normalizeImageBlob (\<lambda>_ _ _. [0, 0, 0, 0]) onePixel 0))
                 (height (normalizeImageBlob (\<lambda>_ _ _. [0, 0, 0, 0]) onePixel 0))) \<le> 0"
    using a by blast
  then show False
    by (simp add: normalizeImageBlob_def onePixel_def jsRound_def Let_def)
qed

text \<open>
  Claim C7, amended. For every input image and every configured limit of at least \<open>1\<close> the
  normalizer's output has no side longer than the limit; and for every limit, when
  \<open>max(width, height) \<le> limit\<close> it returns the input itself.
\<close>

theorem normalize_within_limit:
  "(1 \<le> longestSide \<longrightarrow>
      int (max (width (normalizeImageBlob resample input longestSide))
               (height (normalizeImageBlob resample input longestSide))) \<le> longestSide) \<and>
   (int (max (width input) (height input)) \<le> longestSide \<longrightarrow>
      normalizeImageBlob resample input longestSide = input)"
  using normalize_bound [of longestSide resample input] normalize_noop [of input longestSide resample]
  by blast

theorem normalize_within_limit_witness:
  "(1::int) \<le> 2 \<and>
   width (normalizeImageBlob (\<lambda>_ _ _. []) \<lparr>width = 5, height = 3, data = []\<rparr> 2) = 2 \<and>
   height (normalizeImageBlob (\<lambda>_ _ _. []) \<lparr>width = 5, height = 3, data = []\<rparr> 2) = 1 \<and>
   int (max (width (normalizeImageBlob (\<lambda>_ _ _. []) \<lparr>width = 5, height = 3, data = []\<rparr> 2))
            (height (normalizeImageBlob (\<lambda>_ _ _. []) \<lparr>width = 5, height = 3, data = []\<rparr> 2))) \<le> 2 \<and>
   int (max (width onePixel) (height onePixel)) \<le> 2 \<and>
   normalizeImageBlob (\<lambda>_ _ _. []) onePixel 2 = onePixel"
proof -
  have d: "width (normalizeImageBlob (\<lambda>_ _ _. []) \<lparr>width = 5, height = 3, data = []\<rparr> 2) = 2"
    "height (normalizeImageBlob (\<lambda>_ _ _. []) \<lparr>width = 5, height = 3, data = []\<rparr> 2) = 1"
    by (simp_all add: normalizeImageBlob_def jsRound_def Let_def floor_numeral_quotient)
  have s: "int (max (width onePixel) (height onePixel)) \<le> 2" by (simp add: onePixel_def)
  show ?thesis
    using d s normalize_within_limit [of 2 "\<lambda>_ _ _. []" "\<lparr>width = 5, height = 3, data = []\<rparr>"]
      normalize_within_limit [of 2 "\<lambda>_ _ _. []" onePixel]
    by simp
qed

section \<open>Canvas: the pixels of drawImage and fillRect\<close>

lemma readPx_Cons4: "readPx (p # q # r # s # xs) (Suc j) = readPx xs j"
  by (simp add: readPx_def add.commute)

lemma readPx_solid: "i < n \<Longrightarrow> readPx (concat (replicate n [r, g, b, a])) i = (r, g, b, a)"
proof (induction n arbitrary: i)
  case 0
  then show ?case by simp
next
  case (Suc n)
  show ?case
  proof (cases i)
    case 0
    then show ?thesis by (simp add: readPx_def)
  next
    case (Suc j)
    then have "j < n" using Suc.prems by simp
    then have "readPx (concat (replicate n [r, g, b, a])) j = (r, g, b, a)" by (rule Suc.IH)
    then show ?thesis unfolding Suc by (simp add: readPx_Cons4)
  qed
qed

lemma solidImage_dims [simp]: "width (solidImage w h c) = w" "height (solidImage w h c) = h"
  by (cases c; simp add: solidImage_def)+

lemma solidImage_wf: "wf_canvas (solidImage w h c)"
  by (cases c) (simp add: solidImage_def wf_canvas_def length_concat sum_list_replicate)

lemma solidImage_pixelAt: "x < w \<Longrightarrow> y < h \<Longrightarrow> pixelAt (solidImage w h c) x y = c"
proof -
  assume xy: "x < w" "y < h"
  obtain r g b a where c: "c = (r, g, b, a)" by (metis prod_cases4)
  show ?thesis
    using pixel_index_bound [OF xy] unfolding c
    by (simp add: pixelAt_readPx solidImage_def readPx_solid)
qed

lemma image_eqI:
  assumes "wf_canvas a" "wf_canvas b" "width a = width b" "height a = height b"
    and "\<And>x y. x < width a \<Longrightarrow> y < height a \<Longrightarrow> pixelAt a x y = pixelAt b x y"
  shows "a = b"
proof -
  have "data a = data b"
  proof (rule data_eqI [where w = "width a" and h = "height a"])
    show "length (data a) = width a * height a * 4" using assms(1) by (simp add: wf_canvas_def)
    show "length (data b) = width a * height a * 4" using assms(2,3,4) by (simp add: wf_canvas_def)
  next
    fix x y assume "x < width a" "y < height a"
    then show "readPx (data a) (y * width a + x) = readPx (data b) (y * width a + x)"
      using assms(5) [of x y] assms(3) by (simp add: pixelAt_readPx)
  qed
  then show ?thesis using assms(3,4) by (intro ImageData.equality) simp_all
qed

lemma newCanvas_is_solid: "newCanvas w h = solidImage w h (0, 0, 0, 0)"
proof (rule image_eqI)
  show "wf_canvas (newCanvas w h)" by (simp add: wf_canvas_def newCanvas_def)
  show "wf_canvas (solidImage w h (0, 0, 0, 0))" by (rule solidImage_wf)
next
  fix x y assume "x < width (newCanvas w h)" "y < height (newCanvas w h)"
  then have xy: "x < w" "y < h" by (simp_all add: newCanvas_def)
  show "pixelAt (newCanvas w h) x y = pixelAt (solidImage w h (0, 0, 0, 0)) x y"
    using blank_pixel [OF xy] by (simp add: newCanvas_def solidImage_pixelAt [OF xy])
qed (simp_all add: newCanvas_def)

lemma drawImage_dims [simp]:
  "width (drawImage blend src sx sy sw sh dst dx dy dw dh) = width dst"
  "height (drawImage blend src sx sy sw sh dst dx dy dw dh) = height dst"
  by (simp_all add: drawImage_def)

lemma drawImage_wf:
  "wf_canvas dst \<Longrightarrow> wf_canvas (drawImage blend src sx sy sw sh dst dx dy dw dh)"
  unfolding wf_canvas_def drawImage_def by (simp add: forYX_pixels_length)

lemma drawImage_pixelAt:
  assumes "wf_canvas dst" "x < width dst" "y < height dst"
  shows "pixelAt (drawImage blend src sx sy sw sh dst dx dy dw dh) x y =
     (if dx \<le> x \<and> x < dx + dw \<and> dy \<le> y \<and> y < dy + dh
      then sourceOver blend
             (if sx + nearestSample (x - dx) dw sw < width src \<and>
                 sy + nearestSample (y - dy) dh sh < height src
              then pixelAt src (sx + nearestSample (x - dx) dw sw)
                     (sy + nearestSample (y - dy) dh sh)
              else (0, 0, 0, 0))
             (pixelAt dst x y)
      else pixelAt dst x y)"
proof -
  let ?c = "\<lambda>y x p. if dx \<le> x \<and> x < dx + dw \<and> dy \<le> y \<and> y < dy + dh
               then
                 let u = sx + nearestSample (x - dx) dw sw;
                     v = sy + nearestSample (y - dy) dh sh;
                     s = (if u < width src \<and> v < height src then pixelAt src u v
                          else (0, 0, 0, 0))
                 in sourceOver blend s p
               else p"
  have len: "length (data dst) = width dst * height dst * 4"
    using assms(1) by (simp add: wf_canvas_def)
  have "readPx (forYX (height dst) (width dst)
          (\<lambda>y x od. writePixel od (y * width dst + x) (?c y x (readPx od (y * width dst + x))))
          (data dst)) (y * width dst + x) = ?c y x (readPx (data dst) (y * width dst + x))"
    by (rule forYX_pixels [OF assms(2,3) len])
  then show ?thesis
    by (simp add: pixelAt_readPx drawImage_def Let_def cong: if_cong)
qed

lemma fillRect_dims [simp]:
  "width (fillRect canvas fx fy fw fh colour) = width canvas"
  "height (fillRect canvas fx fy fw fh colour) = height canvas"
  by (simp_all add: fillRect_def)

lemma fillRect_wf: "wf_canvas canvas \<Longrightarrow> wf_canvas (fillRect canvas fx fy fw fh colour)"
  unfolding wf_canvas_def fillRect_def by (simp add: forYX_pixels_length)

lemma fillRect_pixelAt:
  assumes "wf_canvas canvas" "x < width canvas" "y < height canvas"
  shows "pixelAt (fillRect canvas fx fy fw fh colour) x y =
     (if fx \<le> x \<and> x < fx + fw \<and> fy \<le> y \<and> y < fy + fh then colour
      else pixelAt canvas x y)"
proof -
  let ?c = "\<lambda>y x p. if fx \<le> x \<and> x < fx + fw \<and> fy \<le> y \<and> y < fy + fh then colour else p"
  have len: "length (data canvas) = width canvas * height canvas * 4"
    using assms(1) by (simp add: wf_canvas_def)
  have "readPx (forYX (height canvas) (width canvas)
          (\<lambda>y x od. writePixel od (y * width canvas + x)
             (?c y x (readPx od (y * width canvas + x))))
          (data canvas)) (y * width canvas + x) = ?c y x (readPx (data canvas) (y * width canvas + x))"
    by (rule forYX_pixels [OF assms(2,3) len])
  then show ?thesis
    by (simp add: pixelAt_readPx fillRect_def cong: if_cong)
qed

lemma nearestSample_less: "i < dw \<Longrightarrow> 0 < sw \<Longrightarrow> nearestSample i dw sw < sw"
proof -
  assume i: "i < dw" and sw: "0 < sw"
  have "2 * i + 1 < 2 * dw" using i by simp
  then have "(2 * i + 1) * sw < 2 * dw * sw" using sw by (rule mult_strict_right_mono)
  then have "(2 * i + 1) * sw < sw * (2 * dw)" by (simp add: mult.commute)
  moreover have "0 < 2 * dw" using i by simp
  ultimately show ?thesis
    unfolding nearestSample_def by (simp add: div_less_iff_less_mult)
qed

section \<open>Pipeline: the solid red scenario\<close>

lemma sourceOver_opaque: "sourceOver blend (r, g, b, 255) d = (r, g, b, 255)"
  by (simp add: sourceOver_def)

lemma sourceOver_clear: "sourceOver blend (r, g, b, 0) d = d"
  by (simp add: sourceOver_def)

lemma drawImage_solid_cover:
  assumes "0 < sw" "0 < sh"
  shows "drawImage blend (solidImage sw sh (r, g, b, 255)) 0 0 sw sh (newCanvas dw dh) 0 0 dw dh
         = solidImage dw dh (r, g, b, 255)"
proof (rule image_eqI)
  have wf: "wf_canvas (newCanvas dw dh)" by (simp add: wf_canvas_def newCanvas_def)
  show "wf_canvas (drawImage blend (solidImage sw sh (r, g, b, 255)) 0 0 sw sh (newCanvas dw dh) 0 0 dw dh)"
    using wf by (rule drawImage_wf)
  show "wf_canvas (solidImage dw dh (r, g, b, 255))" by (rule solidImage_wf)
  fix x y
  assume "x < width (drawImage blend (solidImage sw sh (r, g, b, 255)) 0 0 sw sh (newCanvas dw dh) 0 0 dw dh)"
    "y < height (drawImage blend (solidImage sw sh (r, g, b, 255)) 0 0 sw sh (newCanvas dw dh) 0 0 dw dh)"
  then have xy: "x < dw" "y < dh" by (simp_all add: newCanvas_def)
  have s: "nearestSample x dw sw < sw" "nearestSample y dh sh < sh"
    using xy assms by (simp_all add: nearestSample_less)
  have "pixelAt (drawImage blend (solidImage sw sh (r, g, b, 255)) 0 0 sw sh (newCanvas dw dh) 0 0 dw dh) x y
      = (r, g, b, 255)"
    using xy s wf
    by (subst drawImage_pixelAt) (simp_all add: newCanvas_def solidImage_pixelAt sourceOver_opaque)
  then show "pixelAt (drawImage blend (solidImage sw sh (r, g, b, 255)) 0 0 sw sh (newCanvas dw dh) 0 0 dw dh) x y
      = pixelAt (solidImage dw dh (r, g, b, 255)) x y"
    using xy by (simp add: solidImage_pixelAt)
qed (simp_all add: newCanvas_def)

lemma fillRect_all:
  "fillRect (newCanvas w h) 0 0 w h c = solidImage w h c"
proof (rule image_eqI)
  have wf: "wf_canvas (newCanvas w h)" by (simp add: wf_canvas_def newCanvas_def)
  show "wf_canvas (fillRect (newCanvas w h) 0 0 w h c)" using wf by (rule fillRect_wf)
  show "wf_canvas (solidImage w h c)" by (rule solidImage_wf)
  fix x y
  assume "x < width (fillRect (newCanvas w h) 0 0 w h c)" "y < height (fillRect (newCanvas w h) 0 0 w h c)"
  then have xy: "x < w" "y < h" by (simp_all add: newCanvas_def)
  show "pixelAt (fillRect (newCanvas w h) 0 0 w h c) x y = pixelAt (solidImage w h c) x y"
    using xy wf by (subst fillRect_pixelAt) (simp_all add: newCanvas_def solidImage_pixelAt)
qed (simp_all add: newCanvas_def)

lemma drawImage_clear_source:
  assumes "wf_canvas dst"
  shows "drawImage blend (solidImage sw sh (0, 0, 0, 0)) 0 0 sw sh dst dx dy dw dh = dst"
proof (rule image_eqI)
  show "wf_canvas (drawImage blend (solidImage sw sh (0, 0, 0, 0)) 0 0 sw sh dst dx dy dw dh)"
    using assms by (rule drawImage_wf)
  show "wf_canvas dst" by (rule assms)
  fix x y
  assume "x < width (drawImage blend (solidImage sw sh (0, 0, 0, 0)) 0 0 sw sh dst dx dy dw dh)"
    "y < height (drawImage blend (solidImage sw sh (0, 0, 0, 0)) 0 0 sw sh dst dx dy dw dh)"
  then have xy: "x < width dst" "y < height dst" by simp_all
  show "pixelAt (drawImage blend (solidImage sw sh (0, 0, 0, 0)) 0 0 sw sh dst dx dy dw dh) x y
      = pixelAt dst x y"
    by (subst drawImage_pixelAt [OF assms xy])
       (simp add: solidImage_pixelAt sourceOver_clear)
qed simp_all

lemma drawImage_solid_onto_solid:
  assumes "0 < sw" "0 < sh" "x < w" "y < h"
  shows "pixelAt (drawImage blend (solidImage sw sh (r, g, b, 255)) 0 0 sw sh
                    (solidImage w h bg) dx dy dw dh) x y
         = (if dx \<le> x \<and> x < dx + dw \<and> dy \<le> y \<and> y < dy + dh then (r, g, b, 255) else bg)"
proof (cases "dx \<le> x \<and> x < dx + dw \<and> dy \<le> y \<and> y < dy + dh")
  case True
  then have "x - dx < dw" "y - dy < dh" by auto
  then have s: "nearestSample (x - dx) dw sw < sw" "nearestSample (y - dy) dh sh < sh"
    using assms(1,2) by (simp_all add: nearestSample_less)
  show ?thesis
    using True s assms(3,4)
    by (subst drawImage_pixelAt)
       (simp_all add: solidImage_wf solidImage_pixelAt sourceOver_opaque)
next
  case False
  then show ?thesis
    using assms(3,4)
    by (subst drawImage_pixelAt) (auto simp: solidImage_wf solidImage_pixelAt)
qed

lemma solidImage_alphaAt: "x < w \<Longrightarrow> y < h \<Longrightarrow> alphaAt (solidImage w h (r, g, b, a)) x y = a"
  using solidImage_pixelAt [of x w y h "(r, g, b, a)"]
  by (simp add: pixelAt_def alphaAt_def Let_def)

lemma cropBounds_solid:
  assumes w: "0 < w" and h: "0 < h" and a: "16 < a"
  shows "cropBounds (solidImage w h (r, g, b, a)) =
           \<lparr>rect_x = 0, rect_y = 0, rect_w = int w, rect_h = int h\<rparr>"
proof -
  let ?im = "solidImage w h (r, g, b, a)"
  have q: "int (alphaAt ?im x y) > 16" if "x < w" "y < h" for x y
    using that a by (simp add: solidImage_alphaAt)
  obtain a' b' c' d' where
    run: "forYX (height ?im) (width ?im) (boundsPixel ?im 16)
       (int (width ?im), int (height ?im), - 1, - 1) = (a', b', c', d')"
    and inside: "\<And>x y. x < width ?im \<Longrightarrow> y < height ?im \<Longrightarrow> int (alphaAt ?im x y) > 16 \<Longrightarrow>
       a' \<le> int x \<and> int x \<le> c' \<and> b' \<le> int y \<and> int y \<le> d'"
    and lo: "a' = int (width ?im) \<or>
       (\<exists>x < width ?im. \<exists>y < height ?im. int (alphaAt ?im x y) > 16 \<and> a' = int x)"
      "b' = int (height ?im) \<or>
       (\<exists>x < width ?im. \<exists>y < height ?im. int (alphaAt ?im x y) > 16 \<and> b' = int y)"
    and hi: "c' = - 1 \<or> (\<exists>x < width ?im. \<exists>y < height ?im. int (alphaAt ?im x y) > 16 \<and> c' = int x)"
      "d' = - 1 \<or> (\<exists>x < width ?im. \<exists>y < height ?im. int (alphaAt ?im x y) > 16 \<and> d' = int y)"
    by (rule bounds_loop [of ?im 16]) blast
  have first: "a' \<le> 0 \<and> b' \<le> 0"
    using inside [of 0 0] q [of 0 0] w h by simp
  have last: "int (w - 1) \<le> c' \<and> int (h - 1) \<le> d'"
    using inside [of "w - 1" "h - 1"] q [of "w - 1" "h - 1"] w h by simp
  have "0 \<le> a'" "0 \<le> b'" using lo by auto
  then have ab: "a' = 0" "b' = 0" using first by simp_all
  have "c' < int w" "d' < int h" using hi w h by auto
  then have cd: "c' = int w - 1" "d' = int h - 1" using last w h by linarith+
  have run': "forYX h w (boundsPixel ?im 16) (int w, int h, - 1, - 1) = (0, 0, int w - 1, int h - 1)"
    using run by (simp add: ab cd)
  have "getOpaqueBounds ?im 16 = Some \<lparr>rect_x = 0, rect_y = 0, rect_w = int w, rect_h = int h\<rparr>"
    using w h by (simp add: getOpaqueBounds_def run')
  then show ?thesis by (simp add: cropBounds_def)
qed

lemma solidImage_wf_ImageData:
  assumes "0 < w" "0 < h" "r \<le> 255" "g \<le> 255" "b \<le> 255" "a \<le> 255"
  shows "wf_ImageData (solidImage w h (r, g, b, a))"
  using assms solidImage_wf [of w h "(r, g, b, a)"]
  by (simp add: wf_ImageData_def wf_canvas_def solidImage_def list_all_iff mult.commute)

lemma quantize_solid:
  assumes w: "0 < w" and h: "0 < h" and pal: "wf_palette palette" and a: "5 \<le> a"
    and q: "findNearestInPalette (of_nat r) (of_nat g) (of_nat b) palette = Some (qr, qg, qb)"
  shows "quantizeImageToPalette (solidImage w h (r, g, b, a)) palette 0
         = Inr (solidImage w h (qr, qg, qb, 255))"
proof -
  let ?im = "solidImage w h (r, g, b, a)"
  let ?out = "\<lparr>width = w, height = h,
          data = forYX h w
            (\<lambda>y x od. writePixel od (y * w + x) (the (quantColour ?im palette 0 y x)))
            (replicate (w * h * 4) 0)\<rparr>"
  have z: "max 0 (min 1 (0::rat)) * 32 = 0" by simp
  have res: "quantizeImageToPalette ?im palette 0 = Inr ?out"
    using quantize_result [of ?im palette 0] w h pal by (simp only: z) simp
  have "(qr, qg, qb) \<in> set palette"
    using findNearest_Some [of palette "of_nat r" "of_nat g" "of_nat b"] pal q
    by (auto simp: wf_palette_def)
  then have le: "qr \<le> 255 \<and> qg \<le> 255 \<and> qb \<le> 255"
    using pal by (auto simp: wf_palette_def list_all_iff)
  have col: "the (quantColour ?im palette 0 y x) = (qr, qg, qb, 255)" if "x < w" "y < h" for x y
    using quantColour_of_pixel [of ?im x y r g b a palette] that a le
    by (simp add: solidImage_pixelAt q toUint8Clamped_def)
  have "?out = solidImage w h (qr, qg, qb, 255)"
  proof (rule image_eqI)
    show "wf_canvas ?out" by (simp add: wf_canvas_def forYX_pixels_length)
    show "wf_canvas (solidImage w h (qr, qg, qb, 255))" by (rule solidImage_wf)
    fix x y assume "x < width ?out" "y < height ?out"
    then have xy: "x < w" "y < h" by simp_all
    show "pixelAt ?out x y = pixelAt (solidImage w h (qr, qg, qb, 255)) x y"
      using xy by (simp add: quantize_pixelAt col solidImage_pixelAt)
  qed simp_all
  then show ?thesis using res by simp
qed

lemma outline_solid_zero:
  assumes "0 < w" "0 < h" "r \<le> 255" "g \<le> 255" "b \<le> 255" "a \<le> 255"
  shows "createPixelOutline (solidImage w h (r, g, b, a)) 0 = Inr (solidImage w h (0, 0, 0, 0))"
  using outline_zero_thickness [OF solidImage_wf_ImageData [OF assms]]
  by (simp add: newCanvas_is_solid [symmetric] newCanvas_def)

lemma putImageData_solid:
  "putImageData (solidImage w h c) (solidImage w h c') = solidImage w h c'"
  by (cases c; cases c') (simp add: putImageData_def solidImage_def)

lemma getImageData_solid:
  "0 < w \<Longrightarrow> 0 < h \<Longrightarrow> getImageData (solidImage w h c) = Inr (solidImage w h c)"
  by (simp add: getImageData_def)

lemma spriteRegion_60:
  "spriteRegion (6 / 10) 64 8 8 x y \<longleftrightarrow> 13 \<le> x \<and> x < 51 \<and> 13 \<le> y \<and> y < 51"
  by (simp add: spriteRegion_def Let_def floor_numeral_quotient)

lemma spriteRegion_70:
  "spriteRegion (7 / 10) 64 8 8 x y \<longleftrightarrow> 10 \<le> x \<and> x < 54 \<and> 10 \<le> y \<and> y < 54"
  by (simp add: spriteRegion_def Let_def floor_numeral_quotient)

lemma smallSize_64_8: "smallSize 64 8 = 8"
  by (simp add: smallSize_def floor_numeral_quotient)

lemma nearest_red_pico8: "findNearestInPalette 255 0 0 (PALETTES pico8) = Some (255, 0, 77)"
  by code_simp

lemma quantize_red_sprite:
  "quantizeImageToPalette (solidImage 8 8 (255, 0, 0, 255)) (PALETTES pico8) 0
   = Inr (solidImage 8 8 (255, 0, 77, 255))"
proof (rule quantize_solid)
  show "wf_palette (PALETTES pico8)" by (rule PALETTES_wf)
  show "findNearestInPalette (of_nat 255) (of_nat 0) (of_nat 0) (PALETTES pico8) = Some (255, 0, 77)"
    using nearest_red_pico8 by simp
qed simp_all

lemma pixelate_solid_red:
  "pixelateImage blend
     \<lparr>paletteName = pico8, ditherEnabled = False, ditherStrength = ds, outlineThickness = 0\<rparr>
     (solidImage 64 64 (255, 0, 0, 255)) 8
   = Inr (drawImage blend (solidImage 8 8 (255, 0, 77, 255)) 0 0 8 8
            (solidImage 64 64 BACKGROUND_FILL) 13 13 38 38)"
proof -
  let ?red = "(255, 0, 0, 255) :: rgba"
  have source: "drawImage blend (solidImage 64 64 ?red) 0 0 64 64 (newCanvas 64 64) 0 0 64 64
      = solidImage 64 64 ?red"
    by (rule drawImage_solid_cover) simp_all
  have crop: "cropBounds (solidImage 64 64 ?red) = \<lparr>rect_x = 0, rect_y = 0, rect_w = 64, rect_h = 64\<rparr>"
    using cropBounds_solid [of 64 64 255 255 0 0] by simp
  have small: "drawImage blend (solidImage 64 64 ?red) 0 0 64 64 (newCanvas 8 8) 0 0 8 8
      = solidImage 8 8 ?red"
    by (rule drawImage_solid_cover) simp_all
  have outline: "createPixelOutline (solidImage 8 8 (255, 0, 77, 255)) 0 = Inr (solidImage 8 8 (0, 0, 0, 0))"
    by (rule outline_solid_zero) simp_all
  have put: "putImageData (newCanvas 8 8) (solidImage 8 8 (0, 0, 0, 0)) = solidImage 8 8 (0, 0, 0, 0)"
    by (simp add: newCanvas_is_solid putImageData_solid)
  have fill: "fillRect (newCanvas 64 64) 0 0 64 64 BACKGROUND_FILL = solidImage 64 64 BACKGROUND_FILL"
    by (rule fillRect_all)
  have under: "drawImage blend (solidImage 8 8 (0, 0, 0, 0)) 0 0 8 8
      (solidImage 64 64 BACKGROUND_FILL) 13 13 38 38 = solidImage 64 64 BACKGROUND_FILL"
    by (rule drawImage_clear_source) (rule solidImage_wf)
  show ?thesis
    by (simp add: pixelateImage_def Let_def source getImageData_solid crop small smallSize_64_8
        quantize_red_sprite putImageData_solid outline put fill under floor_numeral_quotient
        del: PALETTES.simps)
qed

lemma pixelate_solid_red_pixel:
  assumes "x < 64" "y < 64"
  shows "pixelAt (drawImage blend (solidImage 8 8 (255, 0, 77, 255)) 0 0 8 8
            (solidImage 64 64 BACKGROUND_FILL) 13 13 38 38) x y
         = (if spriteRegion (6 / 10) 64 8 8 x y then (255, 0, 77, 255) else BACKGROUND_FILL)"
  using assms unfolding spriteRegion_60 by (subst drawImage_solid_onto_solid) auto

text \<open>
  Claim C5, amended. On the \<open>64 \<times> 64\<close> fully opaque solid red input, with palette pico8, block
  size \<open>8\<close>, dithering disabled and outline thickness \<open>0\<close>: the small canvas is \<open>8 \<times> 8\<close>, every
  sprite pixel quantizes to pico8's \<open>(255, 0, 77)\<close>, and the final \<open>64 \<times> 64\<close> canvas is the
  background colour outside the centred sprite region of coverage \<open>0.6\<close>, the constant of
  \<^verbatim>\<open>pixelateImage\<close> (38 pixels a side, columns and rows 13 to 50), and \<open>(255, 0, 77, 255)\<close>
  at every pixel inside it. This holds whatever the platform's blending of partly transparent
  pixels is, and whatever dither strength is stored while dithering is disabled.
\<close>

theorem pixelate_solid_red_scenario:
  "smallSize 64 8 = 8 \<and>
   quantizeImageToPalette (solidImage 8 8 (255, 0, 0, 255)) (PALETTES pico8) 0
     = Inr (solidImage 8 8 (255, 0, 77, 255)) \<and>
   (\<exists>out. pixelateImage blend
             \<lparr>paletteName = pico8, ditherEnabled = False, ditherStrength = ds,
                outlineThickness = 0\<rparr>
             (solidImage 64 64 (255, 0, 0, 255)) 8 = Inr out \<and>
      width out = 64 \<and> height out = 64 \<and>
      (\<forall>x < 64. \<forall>y < 64.
         pixelAt out x y =
           (if spriteRegion (6 / 10) 64 8 8 x y then (255, 0, 77, 255) else BACKGROUND_FILL)))"
  using smallSize_64_8 quantize_red_sprite pixelate_solid_red [of blend ds]
    pixelate_solid_red_pixel [of _ _ blend]
  by simp

theorem pixelate_solid_red_witness:
  "\<exists>out. pixelateImage (\<lambda>s d. d)
           \<lparr>paletteName = pico8, ditherEnabled = False, ditherStrength = 1 / 5,
              outlineThickness = 0\<rparr>
           (solidImage 64 64 (255, 0, 0, 255)) 8 = Inr out \<and>
     pixelAt out 13 13 = (255, 0, 77, 255) \<and> pixelAt out 50 50 = (255, 0, 77, 255) \<and>
     pixelAt out 12 13 = (237, 141, 38, 255) \<and> pixelAt out 51 50 = (237, 141, 38, 255)"
proof -
  from pixelate_solid_red_scenario [of "\<lambda>s d. d" "1 / 5"]
  obtain out where o: "pixelateImage (\<lambda>s d. d)
           \<lparr>paletteName = pico8, ditherEnabled = False, ditherStrength = 1 / 5,
              outlineThickness = 0\<rparr>
           (solidImage 64 64 (255, 0, 0, 255)) 8 = Inr out"
    and px: "\<forall>x < 64. \<forall>y < 64.
         pixelAt out x y =
           (if spriteRegion (6 / 10) 64 8 8 x y then (255, 0, 77, 255) else BACKGROUND_FILL)"
    by blast
  have "pixelAt out 13 13 = (255, 0, 77, 255)" "pixelAt out 50 50 = (255, 0, 77, 255)"
    "pixelAt out 12 13 = (237, 141, 38, 255)" "pixelAt out 51 50 = (237, 141, 38, 255)"
    using px unfolding spriteRegion_60 by (simp_all add: BACKGROUND_FILL_def)
  then show ?thesis using o by blast
qed

text \<open>
  Claim C5 as stated has the sprite region cover 70% of the square's side: columns and rows
  10 to 53. The pixel \<open>(10, 10)\<close> is background in the output of the code, not sprite.
\<close>

theorem pixelate_coverage_70_counterexample:
  "\<forall>blend ds.
     \<not> (\<exists>out. pixelateImage blend
             \<lparr>paletteName = pico8, ditherEnabled = False, ditherStrength = ds,
                outlineThickness = 0\<rparr>
             (solidImage 64 64 (255, 0, 0, 255)) 8 = Inr out \<and>
          (\<forall>x < 64. \<forall>y < 64.
             pixelAt out x y =
               (if spriteRegion (7 / 10) 64 8 8 x y then (255, 0, 77, 255)
                else BACKGROUND_FILL)))"
proof (intro allI notI)
  fix blend ds
  assume "\<exists>out. pixelateImage blend
             \<lparr>paletteName = pico8, ditherEnabled = False, ditherStrength = ds,
                outlineThickness = 0\<rparr>
             (solidImage 64 64 (255, 0, 0, 255)) 8 = Inr out \<and>
          (\<forall>x < 64. \<forall>y < 64.
             pixelAt out x y =
               (if spriteRegion (7 / 10) 64 8 8 x y then (255, 0, 77, 255)
                else BACKGROUND_FILL))"
  then have claimed: "pixelAt (drawImage blend (solidImage 8 8 (255, 0, 77, 255)) 0 0 8 8
            (solidImage 64 64 BACKGROUND_FILL) 13 13 38 38) 10 10 = (255, 0, 77, 255)"
    unfolding spriteRegion_70 by (simp add: pixelate_solid_red)
  have "pixelAt (drawImage blend (solidImage 8 8 (255, 0, 77, 255)) 0 0 8 8
            (solidImage 64 64 BACKGROUND_FILL) 13 13 38 38) 10 10 = BACKGROUND_FILL"
    using pixelate_solid_red_pixel [of 10 10 blend] unfolding spriteRegion_60 by simp
  then show False using claimed by (simp add: BACKGROUND_FILL_def)
qed

end
